theory Spec2Isabelle
  imports Main "HOL-Library.Sublist"
begin

section \<open>Values shared by the rules of lib/rules.js\<close>

text \<open>
  A rule is a function \<^verbatim>\<open>func(params, errors)\<close> that pushes line numbers onto
  \<^verbatim>\<open>errors\<close>. Reading a property of \<^verbatim>\<open>undefined\<close> or \<^verbatim>\<open>null\<close> throws a
  TypeError in JavaScript; that is the only way the rules can raise, and it is the
  \<open>Inl\<close> branch of every result below.
\<close>

datatype error = TypeError

type_synonym 'a result = "error + 'a"

text \<open>
  Strings are lists of code units; a \<^typ>\<open>char\<close> covers the code units 0 to 255.
  \<^verbatim>\<open>\s\<close> of a JavaScript regular expression, and the characters removed by
  \<^verbatim>\<open>trim\<close> and \<^verbatim>\<open>trimLeft\<close>, are in that range: TAB, LF, VT, FF, CR, space and
  the no-break space. The dot of a regular expression matches every character but
  the line terminators LF and CR.
\<close>

definition is_space :: "char \<Rightarrow> bool" where
  "is_space c =
     (c = CHR 0x09 \<or> c = CHR 0x0A \<or> c = CHR 0x0B \<or> c = CHR 0x0C \<or> c = CHR 0x0D \<or>
      c = CHR 0x20 \<or> c = CHR 0xA0)"

definition is_line_terminator :: "char \<Rightarrow> bool" where
  "is_line_terminator c = (c = CHR 0x0A \<or> c = CHR 0x0D)"

definition trimLeft :: "string \<Rightarrow> string" where
  "trimLeft s = dropWhile is_space s"

definition trim :: "string \<Rightarrow> string" where
  "trim s = rev (dropWhile is_space (rev (dropWhile is_space s)))"

text \<open>
  A token of the tokenizer. The inline children of a token carry a type and a
  content; a block token carries in addition its line range \<^verbatim>\<open>lines\<close> (absent on
  closing tokens, which is what \<^verbatim>\<open>if (token.lines)\<close> tests), the text \<^verbatim>\<open>line\<close> of
  its first line, its 1-based \<^verbatim>\<open>lineNumber\<close>, the heading level \<^verbatim>\<open>hLevel\<close> and
  its children. \<^verbatim>\<open>lineNumber\<close> and \<^verbatim>\<open>hLevel\<close> are only ever read as values (pushed
  or compared), never dereferenced, so they are plain integers here.
\<close>

record span =
  ttype :: string
  content :: "string option"

record token = span +
  tlines :: "(int \<times> int) option"
  tline :: "string option"
  lineNumber :: int
  hLevel :: int
  children :: "span list"

text \<open>
  The options of a rule (\<^verbatim>\<open>params.options\<close>); an absent option is \<open>None\<close>. The
  fields carry the prefix \<open>o_\<close> of the options object. Numeric
  options are natural numbers: the rules are handed a validated configuration.
\<close>

record options =
  o_style :: "string option"
  o_indent :: "nat option"
  o_line_length :: "nat option"
  o_punctuation :: "string option"
  o_ul_single :: "nat option"
  o_ol_single :: "nat option"
  o_ul_multi :: "nat option"
  o_ol_multi :: "nat option"

record params =
  tokens :: "token list"
  lines :: "string list"
  options :: options

text \<open>\<^verbatim>\<open>x || d\<close> on an optional number: \<^verbatim>\<open>undefined\<close> and \<^verbatim>\<open>0\<close> are falsy.\<close>

definition num_or :: "nat option \<Rightarrow> nat \<Rightarrow> nat" where
  "num_or x d = (case x of None \<Rightarrow> d | Some n \<Rightarrow> if n = 0 then d else n)"

text \<open>\<^verbatim>\<open>x || d\<close> on an optional string: \<^verbatim>\<open>undefined\<close> and the empty string are falsy.\<close>

definition str_or :: "string option \<Rightarrow> string \<Rightarrow> string" where
  "str_or x d = (case x of None \<Rightarrow> d | Some s \<Rightarrow> if s = [] then d else s)"

section \<open>Helpers\<close>

text \<open>\<^verbatim>\<open>indentFor\<close>: the number of characters \<^verbatim>\<open>trimLeft\<close> removes.\<close>

definition indentFor :: "token \<Rightarrow> nat result" where
  "indentFor t =
     (case tline t of None \<Rightarrow> Inl TypeError
      | Some l \<Rightarrow> Inr (length l - length (trimLeft l)))"

text \<open>\<^verbatim>\<open>filterTokens(tokens, typeA, typeB)\<close>; \<^verbatim>\<open>typeB\<close> may be left out.\<close>

definition filterTokens ::
  "('a span_scheme) list \<Rightarrow> string \<Rightarrow> string option \<Rightarrow> ('a span_scheme) list" where
  "filterTokens ts typeA typeB =
     filter (\<lambda>t. ttype t = typeA \<or> Some (ttype t) = typeB) ts"

subsection \<open>forEachLine\<close>

text \<open>\<^verbatim>\<open>/^(```|~~~)/\<close>: the line starts with three backticks or three tildes.\<close>

definition fence_re :: "string \<Rightarrow> bool" where
  "fence_re l = (take 3 l = [CHR 0x60, CHR 0x60, CHR 0x60] \<or> take 3 l = ''~~~'')"

text \<open>
  The first loop of \<^verbatim>\<open>forEachLine\<close>: the indices \<^verbatim>\<open>lines[0] .. lines[1] - 1\<close> of every
  code_block token, in token order.
\<close>

fun codeLines_of :: "token list \<Rightarrow> int list result" where
  "codeLines_of [] = Inr []"
| "codeLines_of (t # ts) =
     (case tlines t of
        None \<Rightarrow> Inl TypeError
      | Some (a, b) \<Rightarrow>
          (case codeLines_of ts of
             Inl e \<Rightarrow> Inl e
           | Inr r \<Rightarrow> Inr ([a..b - 1] @ r)))"

text \<open>
  The second loop: \<^verbatim>\<open>inFence\<close> is toggled on a fence line before the callback is
  called with \<^verbatim>\<open>(line, lineIndex, inFence || inCodeBlock, onFence)\<close>. The callback
  updates the state \<open>s\<close> of the calling rule (its \<^verbatim>\<open>errors\<close> and local variables).
\<close>

fun forEachLine_loop ::
  "int list \<Rightarrow> (string \<Rightarrow> nat \<Rightarrow> bool \<Rightarrow> bool \<Rightarrow> 's \<Rightarrow> 's) \<Rightarrow>
   string list \<Rightarrow> nat \<Rightarrow> bool \<Rightarrow> 's \<Rightarrow> 's" where
  "forEachLine_loop codeLines callback [] lineIndex inFence s = s"
| "forEachLine_loop codeLines callback (l # ls) lineIndex inFence s =
     (let onFence = fence_re l;
          inFence' = (if onFence then \<not> inFence else inFence);
          inCodeBlock = (int lineIndex \<in> set codeLines)
      in forEachLine_loop codeLines callback ls (Suc lineIndex) inFence'
           (callback l lineIndex (inFence' \<or> inCodeBlock) onFence s))"

definition forEachLine ::
  "params \<Rightarrow> (string \<Rightarrow> nat \<Rightarrow> bool \<Rightarrow> bool \<Rightarrow> 's \<Rightarrow> 's) \<Rightarrow> 's \<Rightarrow> 's result" where
  "forEachLine p callback s =
     (case codeLines_of (filterTokens (tokens p) ''code_block'' None) of
        Inl e \<Rightarrow> Inl e
      | Inr codeLines \<Rightarrow> Inr (forEachLine_loop codeLines callback (lines p) 0 False s))"

text \<open>
  The classification the callback sees, line by line: the pair
  \<open>(inCode, onFence)\<close> for every line.
\<close>

definition classify :: "params \<Rightarrow> (bool \<times> bool) list result" where
  "classify p =
     forEachLine p (\<lambda>line lineIndex inCode onFence acc. acc @ [(inCode, onFence)]) []"

subsection \<open>Array iteration\<close>

text \<open>
  \<^verbatim>\<open>xs.forEach(function (x, index) { ... })\<close> with a body that updates the state
  \<open>s\<close> and cannot throw, and the same with a body that can.
\<close>

definition forEach :: "'a list \<Rightarrow> ('a \<Rightarrow> nat \<Rightarrow> 's \<Rightarrow> 's) \<Rightarrow> 's \<Rightarrow> 's" where
  "forEach xs f s = fold (\<lambda>(i, x). f x i) (enumerate 0 xs) s"

fun forEachE :: "'a list \<Rightarrow> ('a \<Rightarrow> 's \<Rightarrow> 's result) \<Rightarrow> 's \<Rightarrow> 's result" where
  "forEachE [] f s = Inr s"
| "forEachE (x # xs) f s =
     (case f x s of Inl e \<Rightarrow> Inl e | Inr s' \<Rightarrow> forEachE xs f s')"

section \<open>The regular expressions of the line rules\<close>

text \<open>\<^verbatim>\<open>/\s$/\<close> (MD009): the last character is whitespace.\<close>

definition trailing_space_re :: "string \<Rightarrow> bool" where
  "trailing_space_re s = (case rev s of [] \<Rightarrow> False | c # _ \<Rightarrow> is_space c)"

text \<open>\<^verbatim>\<open>/\t/\<close> (MD010): a TAB occurs.\<close>

definition tab_re :: "string \<Rightarrow> bool" where
  "tab_re s = list_ex (\<lambda>c. c = CHR 0x09) s"

text \<open>
  \<^verbatim>\<open>new RegExp("^.{" + lineLength + "}.*\\s")\<close> (MD013): \<open>n\<close> characters that are not
  line terminators, then any more of them, then a whitespace character. The
  characters before the first whitespace character after the first \<open>n\<close> are no
  line terminators (those are whitespace), so the expression matches exactly when
  some whitespace character stands after the first \<open>n\<close> characters.
\<close>

definition line_length_re :: "nat \<Rightarrow> string \<Rightarrow> bool" where
  "line_length_re n s =
     (n \<le> length s \<and> list_all (\<lambda>c. \<not> is_line_terminator c) (take n s) \<and>
      list_ex is_space (drop n s))"

text \<open>
  \<^verbatim>\<open>/^#+[^#\s]/\<close> (MD018, MD020): one or more hashes, then a character that is
  neither a hash nor whitespace.
\<close>

definition hash_nospace_re :: "string \<Rightarrow> bool" where
  "hash_nospace_re s =
     (case s of
        [] \<Rightarrow> False
      | c # _ \<Rightarrow> c = CHR ''#'' \<and>
          (case dropWhile (\<lambda>c. c = CHR ''#'') s of
             [] \<Rightarrow> False
           | d # _ \<Rightarrow> \<not> is_space d))"

text \<open>\<^verbatim>\<open>/#$/\<close> (MD018): the last character is a hash.\<close>

definition hash_end_re :: "string \<Rightarrow> bool" where
  "hash_end_re s = (case rev s of [] \<Rightarrow> False | c # _ \<Rightarrow> c = CHR ''#'')"

text \<open>
  \<^verbatim>\<open>/^#+[^#]*[^\\]#+$/\<close> (MD020). The string is a run of hashes, a stretch \<open>z\<close>
  without hashes and a rest \<open>w\<close>. With \<open>z\<close> empty the string is all hashes and
  needs three of them (one for each of \<^verbatim>\<open>#+\<close>, \<^verbatim>\<open>[^\\]\<close>, \<^verbatim>\<open>#+\<close>). Otherwise \<open>w\<close> is
  a non-empty run of hashes up to the end, and \<^verbatim>\<open>[^\\]\<close> is either the last
  character of \<open>z\<close> or, when \<open>w\<close> has two hashes to give, its first hash.
\<close>

definition closed_atx_re :: "string \<Rightarrow> bool" where
  "closed_atx_re s =
     (case s of
        [] \<Rightarrow> False
      | c # _ \<Rightarrow> c = CHR ''#'' \<and>
          (let a = dropWhile (\<lambda>c. c = CHR ''#'') s;
               z = takeWhile (\<lambda>c. c \<noteq> CHR ''#'') a;
               w = dropWhile (\<lambda>c. c \<noteq> CHR ''#'') a
           in if a = [] then 3 \<le> length s
              else w \<noteq> [] \<and> list_all (\<lambda>c. c = CHR ''#'') w \<and>
                   (last z \<noteq> CHR 0x5C \<or> 2 \<le> length w)))"

text \<open>
  \<^verbatim>\<open>/[^#\s]#+$/\<close> (MD020): the string ends in a run of hashes with a character
  before it that is neither a hash nor whitespace.
\<close>

definition nospace_hash_end_re :: "string \<Rightarrow> bool" where
  "nospace_hash_end_re s = hash_nospace_re (rev s)"

text \<open>
  \<^verbatim>\<open>/^([\*\+\-]|(\d+\.))\s/\<close> (MD032): a bullet, or digits and a dot, then a
  whitespace character.
\<close>

definition is_digit :: "char \<Rightarrow> bool" where
  "is_digit c = (c \<in> set ''0123456789'')"

definition list_marker_re :: "string \<Rightarrow> bool" where
  "list_marker_re s =
     (case s of
        [] \<Rightarrow> False
      | c # r \<Rightarrow>
          ((c = CHR ''*'' \<or> c = CHR ''+'' \<or> c = CHR ''-'') \<and>
             (case r of [] \<Rightarrow> False | d # _ \<Rightarrow> is_space d)) \<or>
          (is_digit c \<and>
             (case dropWhile is_digit s of
                d # e # _ \<Rightarrow> d = CHR ''.'' \<and> is_space e
              | _ \<Rightarrow> False)))"

text \<open>\<^verbatim>\<open>/^($|\s)/\<close> (MD032): the string is empty or starts with whitespace.\<close>

definition blank_start_re :: "string \<Rightarrow> bool" where
  "blank_start_re s = (case s of [] \<Rightarrow> True | c # _ \<Rightarrow> is_space c)"

section \<open>The line rules\<close>

definition MD009 :: "params \<Rightarrow> int list result" where
  "MD009 p =
     Inr (forEach (lines p)
       (\<lambda>line lineIndex errors.
          if trailing_space_re line then errors @ [int lineIndex + 1] else errors) [])"

definition MD010 :: "params \<Rightarrow> int list result" where
  "MD010 p =
     Inr (forEach (lines p)
       (\<lambda>line lineIndex errors.
          if tab_re line then errors @ [int lineIndex + 1] else errors) [])"

text \<open>MD012: the state is \<open>(errors, prevLine)\<close>.\<close>

definition MD012 :: "params \<Rightarrow> int list result" where
  "MD012 p =
     (case forEachLine p
        (\<lambda>line lineIndex inCode onFence (errors, prevLine).
           let line' = trim line
           in (if \<not> inCode \<and> length line' = 0 \<and> length prevLine = 0
               then errors @ [int lineIndex + 1] else errors,
               line'))
        ([], ''-'') of
        Inl e \<Rightarrow> Inl e
      | Inr (errors, prevLine) \<Rightarrow> Inr errors)"

definition MD013 :: "params \<Rightarrow> int list result" where
  "MD013 p =
     (let lineLength = num_or (o_line_length (options p)) 80
      in Inr (forEach (lines p)
           (\<lambda>line lineIndex errors.
              if line_length_re lineLength line then errors @ [int lineIndex + 1]
              else errors) []))"

definition MD018 :: "params \<Rightarrow> int list result" where
  "MD018 p =
     forEachLine p
       (\<lambda>line lineIndex inCode onFence errors.
          if \<not> inCode \<and> hash_nospace_re line \<and> \<not> hash_end_re line
          then errors @ [int lineIndex + 1] else errors) []"

definition MD020 :: "params \<Rightarrow> int list result" where
  "MD020 p =
     forEachLine p
       (\<lambda>line lineIndex inCode onFence errors.
          if \<not> inCode \<and> closed_atx_re line \<and>
             (hash_nospace_re line \<or> nospace_hash_end_re line)
          then errors @ [int lineIndex + 1] else errors) []"

definition MD031 :: "params \<Rightarrow> int list result" where
  "MD031 p =
     forEachLine p
       (\<lambda>line lineIndex inCode onFence errors.
          if onFence \<and>
             ((inCode \<and> 1 \<le> lineIndex \<and> length (lines p ! (lineIndex - 1)) \<noteq> 0) \<or>
              (\<not> inCode \<and> lineIndex + 1 < length (lines p) \<and>
               length (lines p ! (lineIndex + 1)) \<noteq> 0))
          then errors @ [int lineIndex + 1] else errors) []"

text \<open>MD032: the state is \<open>(errors, inList, prevLine)\<close>.\<close>

definition MD032_line ::
  "string \<Rightarrow> nat \<Rightarrow> bool \<Rightarrow> bool \<Rightarrow> int list \<times> bool \<times> string \<Rightarrow> int list \<times> bool \<times> string" where
  "MD032_line line lineIndex inCode onFence st =
     (case st of (errors, inList, prevLine) \<Rightarrow>
        let (errors', inList') =
              (if \<not> inCode \<or> onFence then
                 let listMarker = list_marker_re (trim line)
                 in (if listMarker \<and> \<not> inList \<and> \<not> blank_start_re prevLine
                     then errors @ [int lineIndex + 1]
                     else if \<not> listMarker \<and> inList \<and> \<not> blank_start_re line
                     then errors @ [int lineIndex]
                     else errors,
                     listMarker)
               else (errors, inList))
        in (errors', inList' \<and> \<not> onFence, line))"

definition MD032 :: "params \<Rightarrow> int list result" where
  "MD032 p =
     (case forEachLine p MD032_line ([], False, []) of
        Inl e \<Rightarrow> Inl e
      | Inr (errors, inList, prevLine) \<Rightarrow> Inr errors)"

section \<open>flattenLists\<close>

text \<open>
  The descriptor object of a list. \<^verbatim>\<open>insert\<close> is the position the descriptor is
  spliced in at; \<^verbatim>\<open>delete current.insert\<close> makes it \<open>None\<close>.
\<close>

record list_desc =
  ordered :: bool
  open_token :: token
  items :: "token list"
  nesting :: nat
  lastLineIndex :: int
  insert_at :: "nat option"

text \<open>
  The variables of \<^verbatim>\<open>flattenLists\<close>. The stack has its top at the head; \<^verbatim>\<open>null\<close>
  and \<^verbatim>\<open>undefined\<close> are \<open>None\<close>.
\<close>

record flatten_state =
  fl_lists :: "list_desc list"
  fl_stack :: "list_desc option list"
  fl_current :: "list_desc option"
  fl_lastWithLines :: "token option"

text \<open>\<^verbatim>\<open>lists.splice(i, 0, x)\<close>; an index beyond the end appends.\<close>

definition splice_in :: "nat \<Rightarrow> 'a \<Rightarrow> 'a list \<Rightarrow> 'a list" where
  "splice_in i x xs = take i xs @ x # drop i xs"

text \<open>\<^verbatim>\<open>stack.pop()\<close>: \<^verbatim>\<open>undefined\<close> on an empty stack.\<close>

definition pop :: "'a option list \<Rightarrow> 'a option \<times> 'a option list" where
  "pop st = (case st of [] \<Rightarrow> (None, []) | x # r \<Rightarrow> (x, r))"

definition is_list_open :: "token \<Rightarrow> bool" where
  "is_list_open t = (ttype t = ''bullet_list_open'' \<or> ttype t = ''ordered_list_open'')"

definition is_list_close :: "token \<Rightarrow> bool" where
  "is_list_close t = (ttype t = ''bullet_list_close'' \<or> ttype t = ''ordered_list_close'')"

definition flatten_token :: "bool option \<Rightarrow> token \<Rightarrow> flatten_state \<Rightarrow> flatten_state result" where
  "flatten_token filterBy t s =
     (if is_list_open t then
        let stack' = fl_current s # fl_stack s
        in Inr (s\<lparr>fl_stack := stack',
                 fl_current := Some \<lparr>ordered = (ttype t = ''ordered_list_open''),
                                      open_token = t,
                                      items = [],
                                      nesting = length stack' - 1,
                                      lastLineIndex = - 1,
                                      insert_at = Some (length (fl_lists s))\<rparr>\<rparr>)
      else if is_list_close t then
        (case fl_current s of
           None \<Rightarrow> Inl TypeError
         | Some cur \<Rightarrow>
             (case fl_lastWithLines s of
                None \<Rightarrow> Inl TypeError
              | Some lw \<Rightarrow>
                  (case tlines lw of
                     None \<Rightarrow> Inl TypeError
                   | Some (a, b) \<Rightarrow>
                       let cur' = cur\<lparr>lastLineIndex := b\<rparr>;
                           lists' =
                             (if filterBy = None \<or> filterBy = Some (ordered cur')
                              then (case insert_at cur' of
                                      Some i \<Rightarrow> splice_in i (cur'\<lparr>insert_at := None\<rparr>) (fl_lists s)
                                    | None \<Rightarrow> cur' # fl_lists s)
                              else fl_lists s);
                           (top, stack') = pop (fl_stack s)
                       in Inr (s\<lparr>fl_lists := lists', fl_current := top, fl_stack := stack'\<rparr>))))
      else if ttype t = ''list_item_open'' then
        (case fl_current s of
           None \<Rightarrow> Inl TypeError
         | Some cur \<Rightarrow> Inr (s\<lparr>fl_current := Some (cur\<lparr>items := items cur @ [t]\<rparr>)\<rparr>))
      else if tlines t \<noteq> None then Inr (s\<lparr>fl_lastWithLines := Some t\<rparr>)
      else Inr s)"

definition flatten_init :: flatten_state where
  "flatten_init = \<lparr>fl_lists = [], fl_stack = [], fl_current = None, fl_lastWithLines = None\<rparr>"

definition flattenLists :: "token list \<Rightarrow> bool option \<Rightarrow> list_desc list result" where
  "flattenLists ts filterBy =
     (case forEachE ts (flatten_token filterBy) flatten_init of
        Inl e \<Rightarrow> Inl e
      | Inr s \<Rightarrow> Inr (fl_lists s))"

section \<open>The list rules\<close>

text \<open>
  \<^verbatim>\<open>unorderedListStyleFor(token)\<close>; the token is \<^verbatim>\<open>undefined\<close> when it is read from an
  empty \<^verbatim>\<open>items\<close> array.
\<close>

definition unorderedListStyleFor :: "token option \<Rightarrow> string result" where
  "unorderedListStyleFor t =
     (case t of
        None \<Rightarrow> Inl TypeError
      | Some tok \<Rightarrow>
          (case tline tok of
             None \<Rightarrow> Inl TypeError
           | Some l \<Rightarrow>
               (let m = take 1 (trimLeft l)
                in if m = ''-'' then Inr ''dash''
                   else if m = ''+'' then Inr ''plus''
                   else Inr ''asterisk'')))"

text \<open>\<^verbatim>\<open>xs[0]\<close>: \<^verbatim>\<open>undefined\<close> on an empty array.\<close>

definition first :: "'a list \<Rightarrow> 'a option" where
  "first xs = (case xs of [] \<Rightarrow> None | x # _ \<Rightarrow> Some x)"

text \<open>MD004: the state is \<open>(errors, style)\<close>.\<close>

definition MD004_list :: "list_desc \<Rightarrow> int list \<times> string \<Rightarrow> (int list \<times> string) result" where
  "MD004_list l st =
     (case st of (errors, style) \<Rightarrow>
        (case (if style = ''consistent'' then unorderedListStyleFor (first (items l))
               else Inr style) of
           Inl e \<Rightarrow> Inl e
         | Inr style' \<Rightarrow>
             (case forEachE (items l)
                     (\<lambda>item errors.
                        case unorderedListStyleFor (Some item) of
                          Inl e \<Rightarrow> Inl e
                        | Inr st \<Rightarrow> Inr (if st \<noteq> style' then errors @ [lineNumber item]
                                           else errors))
                     errors of
                Inl e \<Rightarrow> Inl e
              | Inr errors' \<Rightarrow> Inr (errors', style'))))"

definition MD004 :: "params \<Rightarrow> int list result" where
  "MD004 p =
     (let style = str_or (o_style (options p)) ''consistent''
      in case flattenLists (tokens p) (Some False) of
           Inl e \<Rightarrow> Inl e
         | Inr ls \<Rightarrow>
             (case forEachE ls MD004_list ([], style) of
                Inl e \<Rightarrow> Inl e
              | Inr (errors, style') \<Rightarrow> Inr errors))"

text \<open>\<^verbatim>\<open>indentFor(list.items[0])\<close>.\<close>

definition indentFor_opt :: "token option \<Rightarrow> nat result" where
  "indentFor_opt t = (case t of None \<Rightarrow> Inl TypeError | Some tok \<Rightarrow> indentFor tok)"

definition MD005_list :: "list_desc \<Rightarrow> int list \<Rightarrow> int list result" where
  "MD005_list l errors =
     (case indentFor_opt (first (items l)) of
        Inl e \<Rightarrow> Inl e
      | Inr indent \<Rightarrow>
          forEachE (items l)
            (\<lambda>item errors.
               case indentFor item of
                 Inl e \<Rightarrow> Inl e
               | Inr i \<Rightarrow> Inr (if i \<noteq> indent then errors @ [lineNumber item] else errors))
            errors)"

definition MD005 :: "params \<Rightarrow> int list result" where
  "MD005 p =
     (case flattenLists (tokens p) None of
        Inl e \<Rightarrow> Inl e
      | Inr ls \<Rightarrow> forEachE ls MD005_list [])"

definition MD006_list :: "list_desc \<Rightarrow> int list \<Rightarrow> int list result" where
  "MD006_list l errors =
     (if nesting l = 0 then
        (case indentFor (open_token l) of
           Inl e \<Rightarrow> Inl e
         | Inr i \<Rightarrow> Inr (if i \<noteq> 0 then errors @ [lineNumber (open_token l)] else errors))
      else Inr errors)"

definition MD006 :: "params \<Rightarrow> int list result" where
  "MD006 p =
     (case flattenLists (tokens p) (Some False) of
        Inl e \<Rightarrow> Inl e
      | Inr ls \<Rightarrow> forEachE ls MD006_list [])"

text \<open>MD007: the state is \<open>(errors, prevIndent)\<close>.\<close>

definition MD007_list :: "nat \<Rightarrow> list_desc \<Rightarrow> int list \<times> nat \<Rightarrow> (int list \<times> nat) result" where
  "MD007_list optionsIndent l st =
     (case st of (errors, prevIndent) \<Rightarrow>
        (case indentFor (open_token l) of
           Inl e \<Rightarrow> Inl e
         | Inr indent \<Rightarrow>
             Inr (if indent > prevIndent \<and> indent - prevIndent \<noteq> optionsIndent
                  then errors @ [lineNumber (open_token l)] else errors,
                  indent)))"

definition MD007 :: "params \<Rightarrow> int list result" where
  "MD007 p =
     (let optionsIndent = num_or (o_indent (options p)) 2
      in case flattenLists (tokens p) (Some False) of
           Inl e \<Rightarrow> Inl e
         | Inr ls \<Rightarrow>
             (case forEachE ls (MD007_list optionsIndent) ([], 0) of
                Inl e \<Rightarrow> Inl e
              | Inr (errors, prevIndent) \<Rightarrow> Inr errors))"

text \<open>
  \<^verbatim>\<open>re.test(x)\<close> and \<^verbatim>\<open>re.exec(x)\<close> convert \<^verbatim>\<open>x\<close> to a string first: an absent
  \<^verbatim>\<open>token.line\<close> or \<^verbatim>\<open>content\<close> is matched as the text \<^verbatim>\<open>undefined\<close>.
\<close>

definition re_arg :: "string option \<Rightarrow> string" where
  "re_arg x = (case x of None \<Rightarrow> ''undefined'' | Some s \<Rightarrow> s)"

text \<open>\<^verbatim>\<open>String(number)\<close> for a natural number: its decimal digits.\<close>

fun String_of :: "nat \<Rightarrow> string" where
  "String_of n =
     (if n < 10 then [''0123456789'' ! n]
      else String_of (n div 10) @ [''0123456789'' ! (n mod 10)])"

text \<open>
  \<^verbatim>\<open>new RegExp("^\\s*" + String(number) + "\\. ")\<close> (MD029): whitespace, the number,
  a dot and a space.
\<close>

definition ordered_prefix_re :: "nat \<Rightarrow> string \<Rightarrow> bool" where
  "ordered_prefix_re number s =
     (let pat = String_of number @ ''. ''
      in take (length pat) (dropWhile is_space s) = pat)"

text \<open>MD029: the state of the inner loop is \<open>(errors, number)\<close>.\<close>

definition MD029_list :: "string \<Rightarrow> list_desc \<Rightarrow> int list \<Rightarrow> int list" where
  "MD029_list style l errors =
     fst (fold
       (\<lambda>item (errors, number).
          (if \<not> ordered_prefix_re number (re_arg (tline item))
           then errors @ [lineNumber item] else errors,
           if style = ''ordered'' then number + 1 else number))
       (items l) (errors, 1))"

definition MD029 :: "params \<Rightarrow> int list result" where
  "MD029 p =
     (let style = str_or (o_style (options p)) ''one''
      in case flattenLists (tokens p) (Some True) of
           Inl e \<Rightarrow> Inl e
         | Inr ls \<Rightarrow> Inr (fold (MD029_list style) ls []))"

text \<open>
  \<^verbatim>\<open>/^\s*\S+(\s+)/.exec(s)\<close> (MD030): \<open>None\<close> for \<^verbatim>\<open>null\<close>, otherwise the length of
  the group, the whitespace after the first run of other characters.
\<close>

definition marker_spaces_re :: "string \<Rightarrow> nat option" where
  "marker_spaces_re s =
     (let a = dropWhile is_space s;
          b = dropWhile (\<lambda>c. \<not> is_space c) a
      in if a = [] \<or> b = [] then None else Some (length (takeWhile is_space b)))"

definition MD030_list ::
  "nat \<Rightarrow> nat \<Rightarrow> nat \<Rightarrow> nat \<Rightarrow> list_desc \<Rightarrow> int list \<Rightarrow> int list result" where
  "MD030_list ulSingle olSingle ulMulti olMulti l errors =
     (case tlines (open_token l) of
        None \<Rightarrow> Inl TypeError
      | Some (a, b) \<Rightarrow>
          (let lineCount = lastLineIndex l - a;
               allSingle = (lineCount = int (length (items l)));
               expectedSpaces =
                 (if ordered l then (if allSingle then olSingle else olMulti)
                  else (if allSingle then ulSingle else ulMulti))
           in forEachE (items l)
                (\<lambda>item errors.
                   case marker_spaces_re (re_arg (tline item)) of
                     None \<Rightarrow> Inl TypeError
                   | Some n \<Rightarrow> Inr (if n \<noteq> expectedSpaces then errors @ [lineNumber item]
                                      else errors))
                errors))"

definition MD030 :: "params \<Rightarrow> int list result" where
  "MD030 p =
     (let ulSingle = num_or (o_ul_single (options p)) 1;
          olSingle = num_or (o_ol_single (options p)) 1;
          ulMulti = num_or (o_ul_multi (options p)) 1;
          olMulti = num_or (o_ol_multi (options p)) 1
      in case flattenLists (tokens p) None of
           Inl e \<Rightarrow> Inl e
         | Inr ls \<Rightarrow> forEachE ls (MD030_list ulSingle olSingle ulMulti olMulti) [])"

section \<open>The heading rules\<close>

text \<open>\<^verbatim>\<open>/#\s*$/\<close>: a hash, then whitespace up to the end.\<close>

definition closing_hash_re :: "string \<Rightarrow> bool" where
  "closing_hash_re s =
     (case dropWhile is_space (rev s) of [] \<Rightarrow> False | c # _ \<Rightarrow> c = CHR ''#'')"

definition headingStyleFor :: "token \<Rightarrow> string result" where
  "headingStyleFor t =
     (case tlines t of
        None \<Rightarrow> Inl TypeError
      | Some (a, b) \<Rightarrow>
          Inr (if b - a = 1
               then (if closing_hash_re (re_arg (tline t)) then ''atx_closed'' else ''atx'')
               else ''setext''))"

text \<open>\<^verbatim>\<open>forEachHeading\<close>: the variable \<^verbatim>\<open>heading\<close> and the state of the callback.\<close>

fun forEachHeading_loop ::
  "(token \<Rightarrow> string option \<Rightarrow> 's \<Rightarrow> 's) \<Rightarrow> token list \<Rightarrow> token option \<Rightarrow> 's \<Rightarrow> 's" where
  "forEachHeading_loop callback [] heading s = s"
| "forEachHeading_loop callback (t # ts) heading s =
     (if ttype t = ''heading_open'' then forEachHeading_loop callback ts (Some t) s
      else if ttype t = ''heading_close'' then forEachHeading_loop callback ts None s
      else if ttype t = ''inline'' \<and> heading \<noteq> None
      then forEachHeading_loop callback ts heading (callback (the heading) (content t) s)
      else forEachHeading_loop callback ts heading s)"

definition forEachHeading :: "params \<Rightarrow> (token \<Rightarrow> string option \<Rightarrow> 's \<Rightarrow> 's) \<Rightarrow> 's \<Rightarrow> 's" where
  "forEachHeading p callback s = forEachHeading_loop callback (tokens p) None s"

text \<open>MD001: the state is \<open>(errors, prevLevel)\<close>.\<close>

definition MD001 :: "params \<Rightarrow> int list result" where
  "MD001 p =
     Inr (fst (fold
       (\<lambda>t (errors, prevLevel).
          (if prevLevel \<noteq> 0 \<and> hLevel t > prevLevel + 1 then errors @ [lineNumber t]
           else errors,
           hLevel t))
       (filterTokens (tokens p) ''heading_open'' None) ([], 0)))"

text \<open>MD002: \<^verbatim>\<open>every\<close> stops at the first heading_open token.\<close>

fun MD002_every :: "token list \<Rightarrow> int list \<Rightarrow> int list" where
  "MD002_every [] errors = errors"
| "MD002_every (t # ts) errors =
     (if ttype t = ''heading_open''
      then (if hLevel t \<noteq> 1 then errors @ [lineNumber t] else errors)
      else MD002_every ts errors)"

definition MD002 :: "params \<Rightarrow> int list result" where
  "MD002 p = Inr (MD002_every (tokens p) [])"

definition MD003 :: "params \<Rightarrow> int list result" where
  "MD003 p =
     (let style = str_or (o_style (options p)) ''consistent'';
          headings = filterTokens (tokens p) ''heading_open'' None
      in case (if style = ''consistent'' \<and> headings \<noteq> []
               then headingStyleFor (hd headings) else Inr style) of
           Inl e \<Rightarrow> Inl e
         | Inr style' \<Rightarrow>
             forEachE headings
               (\<lambda>t errors.
                  case headingStyleFor t of
                    Inl e \<Rightarrow> Inl e
                  | Inr st \<Rightarrow> Inr (if st \<noteq> style' then errors @ [lineNumber t] else errors))
               [])"

text \<open>\<^verbatim>\<open>/^#+\s\s/\<close> (MD019, MD021): hashes, then two whitespace characters.\<close>

definition hash_two_spaces_re :: "string \<Rightarrow> bool" where
  "hash_two_spaces_re s =
     (case s of
        [] \<Rightarrow> False
      | c # _ \<Rightarrow> c = CHR ''#'' \<and>
          (case dropWhile (\<lambda>c. c = CHR ''#'') s of
             d # e # _ \<Rightarrow> is_space d \<and> is_space e
           | _ \<Rightarrow> False))"

text \<open>\<^verbatim>\<open>/\s\s#+$/\<close> (MD021): two whitespace characters, then hashes to the end.\<close>

definition two_spaces_hash_end_re :: "string \<Rightarrow> bool" where
  "two_spaces_hash_end_re s = hash_two_spaces_re (rev s)"

definition MD019 :: "params \<Rightarrow> int list result" where
  "MD019 p =
     forEachE (filterTokens (tokens p) ''heading_open'' None)
       (\<lambda>t errors.
          case headingStyleFor t of
            Inl e \<Rightarrow> Inl e
          | Inr st \<Rightarrow>
              Inr (if st = ''atx'' \<and> hash_two_spaces_re (re_arg (tline t))
                   then errors @ [lineNumber t] else errors))
       []"

definition MD021 :: "params \<Rightarrow> int list result" where
  "MD021 p =
     forEachE (filterTokens (tokens p) ''heading_open'' None)
       (\<lambda>t errors.
          case headingStyleFor t of
            Inl e \<Rightarrow> Inl e
          | Inr st \<Rightarrow>
              Inr (if st = ''atx_closed'' \<and>
                      (hash_two_spaces_re (re_arg (tline t)) \<or>
                       two_spaces_hash_end_re (re_arg (tline t)))
                   then errors @ [lineNumber t] else errors))
       []"

text \<open>
  Modelled from the spec: \<^verbatim>\<open>shared.newLineRe\<close> is defined in lib/shared.js, which
  lies outside lib/rules.js. Lines are split at line boundaries: CR LF,
  CR or LF. \<^verbatim>\<open>s.split(shared.newLineRe)\<close>:
\<close>

fun split_newLineRe :: "string \<Rightarrow> string list" where
  "split_newLineRe [] = [[]]"
| "split_newLineRe (c # r) =
     (if c = CHR 0x0D
      then (case r of
              d # r' \<Rightarrow> if d = CHR 0x0A then [] # split_newLineRe r' else [] # split_newLineRe r
            | [] \<Rightarrow> [] # split_newLineRe r)
      else if c = CHR 0x0A then [] # split_newLineRe r
      else (case split_newLineRe r of
              x # xs \<Rightarrow> (c # x) # xs
            | [] \<Rightarrow> [[c]]))"

text \<open>
  \<^verbatim>\<open>/^(-+|=+)\s*$/\<close> (MD022): a run of dashes or a run of equals signs, then
  whitespace up to the end.
\<close>

definition setext_underline_re :: "string \<Rightarrow> bool" where
  "setext_underline_re s =
     (case s of
        [] \<Rightarrow> False
      | c # _ \<Rightarrow> (c = CHR ''-'' \<or> c = CHR ''='') \<and>
                 list_all is_space (dropWhile (\<lambda>d. d = c) s))"

text \<open>
  MD022: the state is
  \<open>(errors, prevHeadingLineNumber, prevMaxLineIndex, needBlankLine)\<close>.
\<close>

definition MD022_token ::
  "token \<Rightarrow> int list \<times> int \<times> int \<times> bool \<Rightarrow> (int list \<times> int \<times> int \<times> bool) result" where
  "MD022_token t st =
     (case st of (errors, prevHeadingLineNumber, prevMaxLineIndex, needBlankLine) \<Rightarrow>
        (case
           (if ttype t = ''heading_open'' then
              (case tlines t of
                 None \<Rightarrow> Inl TypeError
               | Some (a, b) \<Rightarrow>
                   Inr (if a - prevMaxLineIndex = 0 then errors @ [lineNumber t] else errors,
                        lineNumber t, needBlankLine))
            else if ttype t = ''heading_close'' then
              Inr (errors, prevHeadingLineNumber, True)
            else if ttype t = ''inline'' then
              (case content t of
                 None \<Rightarrow> Inl TypeError
               | Some c \<Rightarrow>
                   (case forEachE (enumerate 0 (split_newLineRe c))
                           (\<lambda>(offset, line) errors.
                              if setext_underline_re line
                              then (case tlines t of
                                      None \<Rightarrow> Inl TypeError
                                    | Some (a, b) \<Rightarrow> Inr (errors @ [a + int offset]))
                              else Inr errors)
                           errors of
                      Inl e \<Rightarrow> Inl e
                    | Inr errors' \<Rightarrow> Inr (errors', prevHeadingLineNumber, needBlankLine)))
            else Inr (errors, prevHeadingLineNumber, needBlankLine)) of
           Inl e \<Rightarrow> Inl e
         | Inr (errors1, prevHeadingLineNumber1, needBlankLine1) \<Rightarrow>
             (case tlines t of
                None \<Rightarrow> Inr (errors1, prevHeadingLineNumber1, prevMaxLineIndex, needBlankLine1)
              | Some (a, b) \<Rightarrow>
                  Inr (if needBlankLine1 \<and> a - prevMaxLineIndex = 0
                       then errors1 @ [prevHeadingLineNumber1] else errors1,
                       prevHeadingLineNumber1,
                       max prevMaxLineIndex b,
                       False))))"

definition MD022 :: "params \<Rightarrow> int list result" where
  "MD022 p =
     (case forEachE (tokens p) MD022_token ([], 0, - 1, False) of
        Inl e \<Rightarrow> Inl e
      | Inr (errors, prevHeadingLineNumber, prevMaxLineIndex, needBlankLine) \<Rightarrow> Inr errors)"

text \<open>\<^verbatim>\<open>/^\s/\<close> (MD023, MD027): the first character is whitespace.\<close>

definition leading_space_re :: "string \<Rightarrow> bool" where
  "leading_space_re s = (case s of [] \<Rightarrow> False | c # _ \<Rightarrow> is_space c)"

definition MD023 :: "params \<Rightarrow> int list result" where
  "MD023 p =
     Inr (fold
       (\<lambda>t errors. if leading_space_re (re_arg (tline t)) then errors @ [lineNumber t]
                    else errors)
       (filterTokens (tokens p) ''heading_open'' None) [])"

text \<open>MD024: the state is \<open>(errors, knownContent)\<close>.\<close>

definition MD024 :: "params \<Rightarrow> int list result" where
  "MD024 p =
     Inr (fst (forEachHeading p
       (\<lambda>heading content (errors, knownContent).
          if content \<notin> set knownContent then (errors, knownContent @ [content])
          else (errors @ [lineNumber heading], knownContent))
       ([], [])))"

text \<open>MD025: the state is \<open>(errors, hasTopLevelHeading)\<close>.\<close>

definition MD025 :: "params \<Rightarrow> int list result" where
  "MD025 p =
     Inr (fst (fold
       (\<lambda>t (errors, hasTopLevelHeading).
          if hLevel t = 1 then
            (if hasTopLevelHeading then (errors @ [lineNumber t], hasTopLevelHeading)
             else if lineNumber t = 1 then (errors, True)
             else (errors, hasTopLevelHeading))
          else (errors, hasTopLevelHeading))
       (filterTokens (tokens p) ''heading_open'' None) ([], False)))"

text \<open>
  \<^verbatim>\<open>new RegExp("[" + punctuation + "]$")\<close> (MD026): the last character is one of
  \<^verbatim>\<open>punctuation\<close>. The configuration is validated: \<^verbatim>\<open>punctuation\<close> holds none of
  the characters that have a meaning inside a character class (backslash, closing
  bracket, caret and dash).
\<close>

definition punctuation_end_re :: "string \<Rightarrow> string \<Rightarrow> bool" where
  "punctuation_end_re punctuation s =
     (case rev s of [] \<Rightarrow> False | c # _ \<Rightarrow> c \<in> set punctuation)"

definition MD026 :: "params \<Rightarrow> int list result" where
  "MD026 p =
     (let punctuation = str_or (o_punctuation (options p)) ''.,;:!?''
      in Inr (forEachHeading p
           (\<lambda>heading content errors.
              if punctuation_end_re punctuation (re_arg content)
              then errors @ [lineNumber heading] else errors)
           []))"

section \<open>The blockquote, code and link rules\<close>

text \<open>\<^verbatim>\<open>/^\s*>\s\s/\<close> (MD027).\<close>

definition quote_two_spaces_re :: "string \<Rightarrow> bool" where
  "quote_two_spaces_re s =
     (case dropWhile is_space s of
        c # d # e # _ \<Rightarrow> c = CHR ''>'' \<and> is_space d \<and> is_space e
      | _ \<Rightarrow> False)"

text \<open>MD027: the state is \<open>(errors, inBlockquote)\<close>.\<close>

definition MD027_token :: "token \<Rightarrow> int list \<times> bool \<Rightarrow> (int list \<times> bool) result" where
  "MD027_token t st =
     (case st of (errors, inBlockquote) \<Rightarrow>
        if ttype t = ''blockquote_open'' then Inr (errors, True)
        else if ttype t = ''blockquote_close'' then Inr (errors, False)
        else if ttype t = ''inline'' \<and> inBlockquote then
          (case content t of
             None \<Rightarrow> Inl TypeError
           | Some c \<Rightarrow>
               Inr (forEach (split_newLineRe c)
                      (\<lambda>line offset errors.
                         if leading_space_re line \<or>
                            (offset = 0 \<and> quote_two_spaces_re (re_arg (tline t)))
                         then errors @ [lineNumber t + int offset] else errors)
                      errors,
                    inBlockquote))
        else Inr (errors, inBlockquote))"

definition MD027 :: "params \<Rightarrow> int list result" where
  "MD027 p =
     (case forEachE (tokens p) MD027_token ([], False) of
        Inl e \<Rightarrow> Inl e
      | Inr (errors, inBlockquote) \<Rightarrow> Inr errors)"

text \<open>MD028: the state is \<open>(errors, prevToken.type)\<close>; \<^verbatim>\<open>{}\<close> has no type.\<close>

definition MD028 :: "params \<Rightarrow> int list result" where
  "MD028 p =
     Inr (fst (fold
       (\<lambda>t (errors, prevType).
          (if ttype t = ''blockquote_open'' \<and> prevType = Some ''blockquote_close''
           then errors @ [lineNumber t - 1] else errors,
           Some (ttype t)))
       (tokens p) ([], None)))"

text \<open>\<^verbatim>\<open>/^\$\s/\<close> (MD014): a dollar sign, then a whitespace character.\<close>

definition dollar_re :: "string \<Rightarrow> bool" where
  "dollar_re s = (case s of c # d # _ \<Rightarrow> c = CHR ''$'' \<and> is_space d | _ \<Rightarrow> False)"

definition MD014 :: "params \<Rightarrow> int list result" where
  "MD014 p =
     Inr (fold
       (\<lambda>t errors.
          case content t of
            None \<Rightarrow> errors
          | Some c \<Rightarrow>
              if c \<noteq> [] \<and>
                 list_all dollar_re (filter (\<lambda>line. line \<noteq> []) (split_newLineRe c))
              then errors @ [lineNumber t] else errors)
       (filterTokens (tokens p) ''code_block'' (Some ''fence'')) [])"

text \<open>
  \<^verbatim>\<open>/\([^)]+\)\[[^\]]+\]/\<close> (MD011), at the start of the string and anywhere in it.
\<close>

definition reversed_link_at :: "string \<Rightarrow> bool" where
  "reversed_link_at s =
     (case s of
        [] \<Rightarrow> False
      | c # r \<Rightarrow> c = CHR ''('' \<and> takeWhile (\<lambda>d. d \<noteq> CHR '')'') r \<noteq> [] \<and>
          (case dropWhile (\<lambda>d. d \<noteq> CHR '')'') r of
             d # e # r2 \<Rightarrow>
               e = CHR ''['' \<and> takeWhile (\<lambda>d. d \<noteq> CHR '']'') r2 \<noteq> [] \<and>
               dropWhile (\<lambda>d. d \<noteq> CHR '']'') r2 \<noteq> []
           | _ \<Rightarrow> False))"

fun reversed_link_re :: "string \<Rightarrow> bool" where
  "reversed_link_re [] = False"
| "reversed_link_re (c # r) = (reversed_link_at (c # r) \<or> reversed_link_re r)"

definition MD011 :: "params \<Rightarrow> int list result" where
  "MD011 p =
     Inr (fold
       (\<lambda>t errors.
          fold (\<lambda>child errors.
                  if reversed_link_re (re_arg (content child)) then errors @ [lineNumber t]
                  else errors)
            (filterTokens (children t) ''text'' None) errors)
       (filterTokens (tokens p) ''inline'' None) [])"

section \<open>The catalog\<close>

text \<open>The rules of \<^verbatim>\<open>module.exports\<close>, in the order of the file.\<close>

definition rules :: "(string \<times> (params \<Rightarrow> int list result)) list" where
  "rules =
     [(''MD001'', MD001), (''MD002'', MD002), (''MD003'', MD003), (''MD004'', MD004),
      (''MD005'', MD005), (''MD006'', MD006), (''MD007'', MD007), (''MD009'', MD009),
      (''MD010'', MD010), (''MD011'', MD011), (''MD012'', MD012), (''MD013'', MD013),
      (''MD014'', MD014), (''MD018'', MD018), (''MD019'', MD019), (''MD020'', MD020),
      (''MD021'', MD021), (''MD022'', MD022), (''MD023'', MD023), (''MD024'', MD024),
      (''MD025'', MD025), (''MD026'', MD026), (''MD027'', MD027), (''MD028'', MD028),
      (''MD029'', MD029), (''MD030'', MD030), (''MD031'', MD031), (''MD032'', MD032)]"

section \<open>Notions used in the statements\<close>

text \<open>
  The arguments \<^verbatim>\<open>forEachLine\<close> calls its callback with, as a list; the number of
  fence lines before a line; a fence line is opening when an even number of fence
  lines precedes it, and closing otherwise.
\<close>

fun line_contexts :: "int list \<Rightarrow> string list \<Rightarrow> nat \<Rightarrow> bool \<Rightarrow> (string \<times> nat \<times> bool \<times> bool) list" where
  "line_contexts cl [] i f = []"
| "line_contexts cl (l # ls) i f =
     (let f' = (if fence_re l then \<not> f else f)
      in (l, i, f' \<or> int i \<in> set cl, fence_re l) # line_contexts cl ls (Suc i) f')"

definition fences_before :: "string list \<Rightarrow> nat \<Rightarrow> nat" where
  "fences_before ls i = length (filter fence_re (take i ls))"

definition opening_fence :: "string list \<Rightarrow> nat \<Rightarrow> bool" where
  "opening_fence ls i = (fence_re (ls ! i) \<and> even (fences_before ls i))"

definition closing_fence :: "string list \<Rightarrow> nat \<Rightarrow> bool" where
  "closing_fence ls i = (fence_re (ls ! i) \<and> odd (fences_before ls i))"

text \<open>
  A line is covered by a code_block token when its index lies in the token's line
  range; it is in a code region when the fence state after the line's own toggle
  is set or a code_block token covers it. \<open>code_blocks_ranged\<close>: every code_block
  token has its line range, as the tokenizer provides it.
\<close>

definition in_code_block :: "params \<Rightarrow> nat \<Rightarrow> bool" where
  "in_code_block p i =
     list_ex (\<lambda>t. ttype t = ''code_block'' \<and>
                (case tlines t of None \<Rightarrow> False | Some (a, b) \<Rightarrow> a \<le> int i \<and> int i < b))
       (tokens p)"

definition in_code :: "params \<Rightarrow> nat \<Rightarrow> bool" where
  "in_code p i = (odd (fences_before (lines p) (Suc i)) \<or> in_code_block p i)"

definition code_blocks_ranged :: "params \<Rightarrow> bool" where
  "code_blocks_ranged p =
     list_all (\<lambda>t. tlines t \<noteq> None) (filterTokens (tokens p) ''code_block'' None)"

definition line_views :: "params \<Rightarrow> (string \<times> nat \<times> bool \<times> bool) list" where
  "line_views p =
     map (\<lambda>i. (lines p ! i, i, in_code p i, fence_re (lines p ! i))) [0..<length (lines p)]"

section \<open>Documents used as examples\<close>

definition no_options :: options where
  "no_options =
     \<lparr>o_style = None, o_indent = None, o_line_length = None, o_punctuation = None,
      o_ul_single = None, o_ol_single = None, o_ul_multi = None, o_ol_multi = None\<rparr>"

text \<open>
  A fenced block with blank lines around it and, second, one with text right
  before and right after it.
\<close>

definition fence_doc :: params where
  "fence_doc =
     \<lparr>tokens = [],
      lines = ['''', [CHR 0x60, CHR 0x60, CHR 0x60], ''code'',
               [CHR 0x60, CHR 0x60, CHR 0x60], ''''],
      options = no_options\<rparr>"

definition tight_fence_doc :: params where
  "tight_fence_doc =
     \<lparr>tokens = [],
      lines = [''text'', [CHR 0x60, CHR 0x60, CHR 0x60], '''',
               [CHR 0x60, CHR 0x60, CHR 0x60], ''more''],
      options = no_options\<rparr>"

text \<open>
  MD031 as the specification words it: the line examined is the previous line for
  a closing fence and the next line for an opening fence.
\<close>

definition MD031_as_claimed :: "params \<Rightarrow> nat \<Rightarrow> bool" where
  "MD031_as_claimed p i =
     (fence_re (lines p ! i) \<and>
      (if closing_fence (lines p) i then 1 \<le> i \<and> lines p ! (i - 1) \<noteq> []
       else i + 1 < length (lines p) \<and> lines p ! (i + 1) \<noteq> []))"

text \<open>A blank line holds whitespace only; \<^verbatim>\<open>trim\<close> leaves nothing of it.\<close>

definition blank :: "string \<Rightarrow> bool" where
  "blank l = list_all is_space l"

text \<open>
  Tokens as the rules receive them. A token with the line range \<open>[a, b)\<close> comes with
  the text of line \<open>a\<close> of the document and the line number \<open>a + 1\<close>; a closing token
  has no line range, no line and no line number (0 stands for the absent number,
  which no rule reads).
\<close>

definition block :: "string list \<Rightarrow> string \<Rightarrow> int \<Rightarrow> int \<Rightarrow> int \<Rightarrow> string option \<Rightarrow> token" where
  "block ls ty a b lvl c =
     \<lparr>ttype = ty, content = c, tlines = Some (a, b), tline = Some (ls ! nat a),
      lineNumber = a + 1, hLevel = lvl, children = []\<rparr>"

definition closing :: "string \<Rightarrow> token" where
  "closing ty =
     \<lparr>ttype = ty, content = None, tlines = None, tline = None, lineNumber = 0, hLevel = 0,
      children = []\<rparr>"

text \<open>Nine lines of text, three blank lines (lines 10 to 12) and a line of text.\<close>

definition blank_run_doc :: params where
  "blank_run_doc =
     \<lparr>tokens = [],
      lines = [''a'', ''b'', ''c'', ''d'', ''e'', ''f'', ''g'', ''h'', ''i'',
               '''', '' '', '''', ''j''],
      options = no_options\<rparr>"

text \<open>
  A paragraph of two lines whose second line starts with a hashtag; the tokenizer
  emits no heading for it.
\<close>

definition hashtag_lines :: "string list" where
  "hashtag_lines = [''Some text'', ''#hashtag in a paragraph'']"

definition hashtag_doc :: params where
  "hashtag_doc =
     \<lparr>tokens = [block hashtag_lines ''paragraph_open'' 0 2 0 None,
                block hashtag_lines ''inline'' 0 2 0
                  (Some (''Some text'' @ [CHR 0x0A] @ ''#hashtag in a paragraph'')),
                closing ''paragraph_close''],
      lines = hashtag_lines, options = no_options\<rparr>"

text \<open>
  A line of 81 letters, a line of 80 letters followed by a space and a letter, and
  a short line; and a document with the threshold 10.
\<close>

definition long_lines_doc :: params where
  "long_lines_doc =
     \<lparr>tokens = [],
      lines = [replicate 81 (CHR ''a''), replicate 80 (CHR ''a'') @ '' b'', ''a b''],
      options = no_options\<rparr>"

definition spaced_doc :: params where
  "spaced_doc =
     \<lparr>tokens = [],
      lines = [''short line'', ''0123456789 and more''],
      options = no_options\<lparr>o_line_length := Some 10\<rparr>\<rparr>"

text \<open>A paragraph on line 1 and level-1 headings on lines 3 and 5.\<close>

definition late_h1_lines :: "string list" where
  "late_h1_lines = [''Intro'', '''', ''# One'', '''', ''# Two'']"

definition late_h1_doc :: params where
  "late_h1_doc =
     \<lparr>tokens = [block late_h1_lines ''paragraph_open'' 0 1 0 None,
                block late_h1_lines ''inline'' 0 1 0 (Some ''Intro''),
                closing ''paragraph_close'',
                block late_h1_lines ''heading_open'' 2 3 1 None,
                block late_h1_lines ''inline'' 2 3 0 (Some ''One''),
                closing ''heading_close'',
                block late_h1_lines ''heading_open'' 4 5 1 None,
                block late_h1_lines ''inline'' 4 5 0 (Some ''Two''),
                closing ''heading_close''],
      lines = late_h1_lines, options = no_options\<rparr>"

section \<open>Notions used in the proofs about flattenLists\<close>

text \<open>
  The descriptors in progress, innermost first: the current one and those on the
  stack. Their insert positions do not grow from the innermost outwards, and none
  lies beyond the end of \<^verbatim>\<open>lists\<close>.
\<close>

definition somes :: "'a option list \<Rightarrow> 'a list" where
  "somes xs = concat (map (\<lambda>x. case x of None \<Rightarrow> [] | Some y \<Rightarrow> [y]) xs)"

definition pending :: "flatten_state \<Rightarrow> list_desc list" where
  "pending s = somes (fl_current s # fl_stack s)"

fun mono_inserts :: "nat \<Rightarrow> list_desc list \<Rightarrow> bool" where
  "mono_inserts n [] = True"
| "mono_inserts n (d # ds) =
     (case insert_at d of None \<Rightarrow> False | Some k \<Rightarrow> k \<le> n \<and> mono_inserts k ds)"

text \<open>
  \<^verbatim>\<open>lists\<close> with the descriptors in progress spliced in where they will go, innermost
  first; \<open>keys\<close> gives the position and the opening token of each.
\<close>

fun weave :: "(nat \<times> 'a) list \<Rightarrow> 'a list \<Rightarrow> 'a list" where
  "weave [] xs = xs"
| "weave ((k, x) # ks) xs = weave ks (splice_in k x xs)"

definition keys :: "list_desc list \<Rightarrow> (nat \<times> token) list" where
  "keys ds = map (\<lambda>d. (the (insert_at d), open_token d)) ds"

text \<open>
  The invariant of the scan: with the descriptors in progress spliced in, the
  opening tokens of \<^verbatim>\<open>lists\<close> are in the order \<open>W\<close> of the opening tokens seen.
\<close>

definition flat_inv :: "flatten_state \<Rightarrow> token list \<Rightarrow> bool" where
  "flat_inv s W =
     (mono_inserts (length (fl_lists s)) (pending s) \<and>
      subseq (weave (keys (pending s)) (map open_token (fl_lists s))) W)"

text \<open>
  The scan with a filter \<open>b\<close> against the scan without one: the same descriptors,
  with the insert position counted among the descriptors that pass the filter.
\<close>

definition sim_desc :: "bool \<Rightarrow> list_desc list \<Rightarrow> list_desc \<Rightarrow> list_desc \<Rightarrow> bool" where
  "sim_desc b L d d' =
     (\<exists>k. insert_at d = Some k \<and>
          d' = d\<lparr>insert_at := Some (length (filter (\<lambda>x. ordered x = b) (take k L)))\<rparr>)"

definition sim_state :: "bool \<Rightarrow> flatten_state \<Rightarrow> flatten_state \<Rightarrow> bool" where
  "sim_state b s s' =
     (fl_lists s' = filter (\<lambda>x. ordered x = b) (fl_lists s) \<and>
      fl_lastWithLines s' = fl_lastWithLines s \<and>
      list_all2 (rel_option (sim_desc b (fl_lists s)))
        (fl_current s # fl_stack s) (fl_current s' # fl_stack s'))"

text \<open>
  A bullet list with a nested ordered list, followed by an ordered list, as the
  tokenizer emits them.
\<close>

definition nested_lines :: "string list" where
  "nested_lines = [''- a'', ''  1. b'', ''- c'', '''', ''1. d'']"

definition nested_doc :: params where
  "nested_doc =
     \<lparr>tokens = [block nested_lines ''bullet_list_open'' 0 3 0 None,
                block nested_lines ''list_item_open'' 0 2 0 None,
                block nested_lines ''paragraph_open'' 0 1 0 None,
                block nested_lines ''inline'' 0 1 0 (Some ''a''),
                closing ''paragraph_close'',
                block nested_lines ''ordered_list_open'' 1 2 0 None,
                block nested_lines ''list_item_open'' 1 2 0 None,
                block nested_lines ''paragraph_open'' 1 2 0 None,
                block nested_lines ''inline'' 1 2 0 (Some ''b''),
                closing ''paragraph_close'',
                closing ''list_item_close'',
                closing ''ordered_list_close'',
                closing ''list_item_close'',
                block nested_lines ''list_item_open'' 2 3 0 None,
                block nested_lines ''paragraph_open'' 2 3 0 None,
                block nested_lines ''inline'' 2 3 0 (Some ''c''),
                closing ''paragraph_close'',
                closing ''list_item_close'',
                closing ''bullet_list_close'',
                block nested_lines ''ordered_list_open'' 4 5 0 None,
                block nested_lines ''list_item_open'' 4 5 0 None,
                block nested_lines ''paragraph_open'' 4 5 0 None,
                block nested_lines ''inline'' 4 5 0 (Some ''d''),
                closing ''paragraph_close'',
                closing ''list_item_close'',
                closing ''ordered_list_close''],
      lines = nested_lines, options = no_options\<rparr>"

section \<open>Notions used in the statements about the catalog\<close>


text \<open>
  The tokens whose \<^verbatim>\<open>lineNumber\<close> a rule outside the per-item list rules may push:
  opening tokens of headings, lists and blockquotes, inline tokens, code blocks
  and fences. In a token stream of the tokenizer their line numbers are not
  negative and do not decrease.
\<close>

definition reporting :: "token \<Rightarrow> bool" where
  "reporting t =
     (ttype t \<in> set [''heading_open'', ''inline'', ''code_block'', ''fence'',
                       ''blockquote_open'', ''bullet_list_open'', ''ordered_list_open''])"

definition tokens_ascending :: "params \<Rightarrow> bool" where
  "tokens_ascending p = sorted (0 # map lineNumber (filter reporting (tokens p)))"

text \<open>
  No line of the content of an inline token is a run of dashes or of equals signs
  (the lines MD022 reports by their 0-based index).
\<close>

definition no_underline :: "token \<Rightarrow> bool" where
  "no_underline t =
     (case content t of
        None \<Rightarrow> True
      | Some c \<Rightarrow> \<not> list_ex setext_underline_re (split_newLineRe c))"

definition no_underline_content :: "params \<Rightarrow> bool" where
  "no_underline_content p = list_all no_underline (filterTokens (tokens p) ''inline'' None)"

text \<open>
  The lines of the content of an inline token end before the next inline token
  starts.
\<close>

definition content_lines :: "token \<Rightarrow> nat" where
  "content_lines t = (case content t of None \<Rightarrow> 0 | Some c \<Rightarrow> length (split_newLineRe c))"

definition inline_spans_apart :: "params \<Rightarrow> bool" where
  "inline_spans_apart p =
     sorted_wrt (\<lambda>t u. lineNumber t + int (content_lines t) - 1 \<le> lineNumber u)
       (filterTokens (tokens p) ''inline'' None)"

section \<open>More documents used as examples\<close>

text \<open>
  The tokens of a one-line paragraph, of a list item and of a list, and two shapes
  of documents: a list of two items whose first item holds a nested list of one
  item (three lines), or of two items (four lines).
\<close>

definition para :: "string list \<Rightarrow> int \<Rightarrow> string \<Rightarrow> token list" where
  "para ls a txt =
     [block ls ''paragraph_open'' a (a + 1) 0 None,
      block ls ''inline'' a (a + 1) 0 (Some txt),
      closing ''paragraph_close'']"

definition li :: "string list \<Rightarrow> int \<Rightarrow> int \<Rightarrow> token list \<Rightarrow> token list" where
  "li ls a b body = block ls ''list_item_open'' a b 0 None # body @ [closing ''list_item_close'']"

definition lst :: "string list \<Rightarrow> string \<Rightarrow> int \<Rightarrow> int \<Rightarrow> token list \<Rightarrow> token list" where
  "lst ls ty a b its =
     block ls (ty @ ''_list_open'') a b 0 None # its @ [closing (ty @ ''_list_close'')]"

definition nested3 :: "string \<Rightarrow> string list \<Rightarrow> options \<Rightarrow> params" where
  "nested3 ty ls opts =
     \<lparr>tokens = lst ls ty 0 3
                 (li ls 0 2 (para ls 0 ''a'' @ lst ls ty 1 2 (li ls 1 2 (para ls 1 ''b''))) @
                  li ls 2 3 (para ls 2 ''c'')),
      lines = ls, options = opts\<rparr>"

definition nested4 :: "string \<Rightarrow> string list \<Rightarrow> options \<Rightarrow> params" where
  "nested4 ty ls opts =
     \<lparr>tokens = lst ls ty 0 4
                 (li ls 0 3 (para ls 0 ''a'' @
                             lst ls ty 1 3 (li ls 1 2 (para ls 1 ''b'') @
                                            li ls 2 3 (para ls 2 ''c''))) @
                  li ls 3 4 (para ls 3 ''d'')),
      lines = ls, options = opts\<rparr>"






definition marker_only_lines :: "string list" where
  "marker_only_lines = [''- a'', ''-'']"

definition marker_only_doc :: params where
  "marker_only_doc =
     \<lparr>tokens = [block marker_only_lines ''bullet_list_open'' 0 2 0 None,
                block marker_only_lines ''list_item_open'' 0 1 0 None,
                block marker_only_lines ''paragraph_open'' 0 1 0 None,
                block marker_only_lines ''inline'' 0 1 0 (Some ''a''),
                closing ''paragraph_close'',
                closing ''list_item_close'',
                block marker_only_lines ''list_item_open'' 1 2 0 None,
                closing ''list_item_close'',
                closing ''bullet_list_close''],
      lines = marker_only_lines, options = no_options\<rparr>"

text \<open>
  A heading whose text is a run of equals signs, right after a paragraph; and two
  adjacent headings between two paragraphs, with no blank line anywhere.
\<close>

definition underline_heading_lines :: "string list" where
  "underline_heading_lines = [''text'', ''# =='']"

definition underline_heading_doc :: params where
  "underline_heading_doc =
     \<lparr>tokens = para underline_heading_lines 0 ''text'' @
                [block underline_heading_lines ''heading_open'' 1 2 1 None,
                 block underline_heading_lines ''inline'' 1 2 0 (Some ''==''),
                 closing ''heading_close''],
      lines = underline_heading_lines, options = no_options\<rparr>"

definition adjacent_headings_lines :: "string list" where
  "adjacent_headings_lines = [''text'', ''# A'', ''# B'', ''more text'']"

definition adjacent_headings_doc :: params where
  "adjacent_headings_doc =
     \<lparr>tokens = para adjacent_headings_lines 0 ''text'' @
                [block adjacent_headings_lines ''heading_open'' 1 2 1 None,
                 block adjacent_headings_lines ''inline'' 1 2 0 (Some ''A''),
                 closing ''heading_close'',
                 block adjacent_headings_lines ''heading_open'' 2 3 1 None,
                 block adjacent_headings_lines ''inline'' 2 3 0 (Some ''B''),
                 closing ''heading_close''] @
                para adjacent_headings_lines 3 ''more text'',
      lines = adjacent_headings_lines, options = no_options\<rparr>"

section \<open>Properties of the line scan\<close>

lemma loop_fold:
  "forEachLine_loop cl cb ls i f s = fold (\<lambda>(l, j, c, onf). cb l j c onf) (line_contexts cl ls i f) s"
  by (induction ls arbitrary: i f s) (simp_all add: Let_def)

lemma length_line_contexts [simp]: "length (line_contexts cl ls i f) = length ls"
  by (induction ls arbitrary: i f) (simp_all add: Let_def)

lemma nth_line_contexts:
  "k < length ls \<Longrightarrow>
   line_contexts cl ls i f ! k =
     (ls ! k, i + k, (f \<noteq> odd (fences_before ls (Suc k))) \<or> int (i + k) \<in> set cl, fence_re (ls ! k))"
proof (induction ls arbitrary: i f k)
  case Nil
  then show ?case by simp
next
  case (Cons l ls)
  show ?case
  proof (cases k)
    case 0
    then show ?thesis by (simp add: Let_def fences_before_def)
  next
    case (Suc m)
    with Cons.prems have m: "m < length ls" by simp
    have "line_contexts cl (l # ls) i f ! k =
            line_contexts cl ls (Suc i) (if fence_re l then \<not> f else f) ! m"
      using Suc by (simp add: Let_def)
    also have "\<dots> = (ls ! m, Suc i + m,
        ((if fence_re l then \<not> f else f) \<noteq> odd (fences_before ls (Suc m))) \<or>
          int (Suc i + m) \<in> set cl, fence_re (ls ! m))"
      by (rule Cons.IH [OF m])
    also have "\<dots> = ((l # ls) ! k, i + k,
        (f \<noteq> odd (fences_before (l # ls) (Suc k))) \<or> int (i + k) \<in> set cl,
        fence_re ((l # ls) ! k))"
      using Suc by (auto simp add: fences_before_def)
    finally show ?thesis .
  qed
qed


lemma codeLines_of_ranged:
  "list_all (\<lambda>t. tlines t \<noteq> None) ts \<Longrightarrow>
   \<exists>cl. codeLines_of ts = Inr cl \<and>
     (\<forall>j. j \<in> set cl \<longleftrightarrow> (\<exists>t\<in>set ts. \<exists>a b. tlines t = Some (a, b) \<and> a \<le> j \<and> j < b))"
proof (induction ts)
  case Nil
  then show ?case by simp
next
  case (Cons t ts)
  then obtain a b where ab: "tlines t = Some (a, b)" by (cases "tlines t") auto
  from Cons obtain cl where cl: "codeLines_of ts = Inr cl"
    "\<And>j. j \<in> set cl \<longleftrightarrow> (\<exists>t\<in>set ts. \<exists>a b. tlines t = Some (a, b) \<and> a \<le> j \<and> j < b)"
    by auto
  have "codeLines_of (t # ts) = Inr ([a..b - 1] @ cl)" using ab cl(1) by simp
  moreover have "\<And>j. j \<in> set ([a..b - 1] @ cl) \<longleftrightarrow>
      (\<exists>u\<in>set (t # ts). \<exists>a b. tlines u = Some (a, b) \<and> a \<le> j \<and> j < b)"
    using ab cl(2) by auto
  ultimately show ?case by blast
qed

lemma codeLines_of_unranged:
  "\<not> list_all (\<lambda>t. tlines t \<noteq> None) ts \<Longrightarrow> codeLines_of ts = Inl TypeError"
proof (induction ts)
  case Nil
  then show ?case by simp
next
  case (Cons t ts)
  then show ?case by (cases "codeLines_of ts") (auto split: option.splits prod.splits)
qed

lemma in_code_block_iff:
  "in_code_block p i \<longleftrightarrow>
   (\<exists>t\<in>set (filterTokens (tokens p) ''code_block'' None).
      \<exists>a b. tlines t = Some (a, b) \<and> a \<le> int i \<and> int i < b)"
  unfolding in_code_block_def filterTokens_def list_ex_iff
  by (simp split: option.splits) fastforce

lemma forEachLine_views:
  assumes "code_blocks_ranged p"
  shows "forEachLine p cb s = Inr (fold (\<lambda>(l, j, c, onf). cb l j c onf) (line_views p) s)"
proof -
  from assms obtain cl where cl:
    "codeLines_of (filterTokens (tokens p) ''code_block'' None) = Inr cl"
    "\<And>j. j \<in> set cl \<longleftrightarrow> (\<exists>t\<in>set (filterTokens (tokens p) ''code_block'' None).
        \<exists>a b. tlines t = Some (a, b) \<and> a \<le> j \<and> j < b)"
    unfolding code_blocks_ranged_def using codeLines_of_ranged by blast
  have mem: "\<And>i. int i \<in> set cl \<longleftrightarrow> in_code_block p i"
    by (simp add: cl(2) in_code_block_iff)
  have "line_contexts cl (lines p) 0 False = line_views p"
    by (rule nth_equalityI)
       (simp_all add: line_views_def nth_line_contexts in_code_def mem)
  then show ?thesis
    by (simp add: forEachLine_def cl(1) loop_fold)
qed

lemma forEachLine_unranged:
  "\<not> code_blocks_ranged p \<Longrightarrow> forEachLine p cb s = Inl TypeError"
  by (simp add: forEachLine_def code_blocks_ranged_def codeLines_of_unranged)

lemma fold_push_filter:
  "fold (\<lambda>x e. if Q x then e @ [g x] else e) xs e0 = e0 @ map g (filter Q xs)"
  by (induction xs arbitrary: e0) simp_all

lemma forEach_push:
  "forEach xs (\<lambda>x i e. if Q x i then e @ [g i] else e) e0 =
   e0 @ map g (filter (\<lambda>i. Q (xs ! i) i) [0..<length xs])"
proof -
  have "forEach xs (\<lambda>x i e. if Q x i then e @ [g i] else e) e0 =
        fold (\<lambda>ix e. if Q (snd ix) (fst ix) then e @ [g (fst ix)] else e) (enumerate 0 xs) e0"
    by (simp add: forEach_def case_prod_unfold)
  also have "\<dots> = e0 @ map (\<lambda>ix. g (fst ix)) (filter (\<lambda>ix. Q (snd ix) (fst ix)) (enumerate 0 xs))"
    by (rule fold_push_filter)
  also have "enumerate 0 xs = map (\<lambda>i. (i, xs ! i)) [0..<length xs]"
    by (rule nth_equalityI) (simp_all add: nth_enumerate_eq)
  finally show ?thesis by (simp add: filter_map comp_def)
qed

lemma forEachLine_push:
  assumes "code_blocks_ranged p"
  shows "forEachLine p (\<lambda>l j c onf e. if Q l j c onf then e @ [g j] else e) e0 =
    Inr (e0 @ map g (filter (\<lambda>i. Q (lines p ! i) i (in_code p i) (fence_re (lines p ! i)))
                       [0..<length (lines p)]))"
proof -
  let ?Q = "\<lambda>x. Q (fst x) (fst (snd x)) (fst (snd (snd x))) (snd (snd (snd x)))"
  let ?g = "\<lambda>x. g (fst (snd x))"
  have "fold (\<lambda>(l, j, c, onf) e. if Q l j c onf then e @ [g j] else e) (line_views p) e0 =
        fold (\<lambda>x e. if ?Q x then e @ [?g x] else e) (line_views p) e0"
    by (simp add: case_prod_unfold)
  also have "\<dots> = e0 @ map ?g (filter ?Q (line_views p))"
    by (rule fold_push_filter)
  finally show ?thesis
    by (simp add: forEachLine_views [OF assms] line_views_def filter_map comp_def)
qed


lemma fold_push_all: "fold (\<lambda>x e. e @ [g x]) xs e0 = e0 @ map g xs"
  by (induction xs arbitrary: e0) simp_all

lemma fences_before_Suc:
  "i < length ls \<Longrightarrow>
   fences_before ls (Suc i) = fences_before ls i + (if fence_re (ls ! i) then 1 else 0)"
  by (simp add: fences_before_def take_Suc_conv_app_nth)

lemma classify_views:
  assumes "code_blocks_ranged p"
  shows "classify p = Inr (map (\<lambda>i. (in_code p i, fence_re (lines p ! i))) [0..<length (lines p)])"
proof -
  have "fold (\<lambda>(l, j, c, onf) acc. acc @ [(c, onf)]) (line_views p) [] =
        fold (\<lambda>x acc. acc @ [(fst (snd (snd x)), snd (snd (snd x)))]) (line_views p) []"
    by (simp add: case_prod_unfold)
  also have "\<dots> = [] @ map (\<lambda>x. (fst (snd (snd x)), snd (snd (snd x)))) (line_views p)"
    by (rule fold_push_all)
  finally show ?thesis
    by (simp add: classify_def forEachLine_views [OF assms] line_views_def comp_def)
qed

section \<open>The line classification\<close>

text \<open>
  C3. The scan applies a line's own fence toggle before it classifies the line: an
  opening fence line is classified as inside code, and a closing fence line is
  classified as inside code only when a code_block token covers it.
\<close>

theorem classify_toggle_first:
  assumes "code_blocks_ranged p" and "i < length (lines p)"
  shows "\<exists>cs. classify p = Inr cs \<and> length cs = length (lines p) \<and>
           snd (cs ! i) = fence_re (lines p ! i) \<and>
           (opening_fence (lines p) i \<longrightarrow> fst (cs ! i)) \<and>
           (closing_fence (lines p) i \<longrightarrow> (fst (cs ! i) \<longleftrightarrow> in_code_block p i))"
proof -
  let ?cs = "map (\<lambda>i. (in_code p i, fence_re (lines p ! i))) [0..<length (lines p)]"
  have c: "classify p = Inr ?cs" by (rule classify_views [OF assms(1)])
  have n: "?cs ! i = (in_code p i, fence_re (lines p ! i))" using assms(2) by simp
  have o: "opening_fence (lines p) i \<Longrightarrow> in_code p i"
    using assms(2) by (simp add: opening_fence_def in_code_def fences_before_Suc)
  have cl: "closing_fence (lines p) i \<Longrightarrow> in_code p i = in_code_block p i"
    using assms(2) by (simp add: closing_fence_def in_code_def fences_before_Suc)
  show ?thesis using c n o cl by simp
qed

lemma fence_doc_ranged: "code_blocks_ranged fence_doc"
  by (simp add: code_blocks_ranged_def fence_doc_def filterTokens_def)

theorem classify_toggle_first_witness:
  "code_blocks_ranged fence_doc \<and> 1 < length (lines fence_doc) \<and>
   opening_fence (lines fence_doc) 1 \<and> closing_fence (lines fence_doc) 3 \<and>
   (\<exists>cs. classify fence_doc = Inr cs \<and> fst (cs ! 1) \<and> \<not> fst (cs ! 3))"
proof -
  have l: "1 < length (lines fence_doc)" "3 < length (lines fence_doc)"
    by (simp_all add: fence_doc_def)
  have o: "opening_fence (lines fence_doc) 1"
    by (simp add: fence_doc_def opening_fence_def fences_before_def fence_re_def)
  have c: "closing_fence (lines fence_doc) 3"
    by (simp add: fence_doc_def closing_fence_def fences_before_def fence_re_def
        eval_nat_numeral)
  have b: "\<not> in_code_block fence_doc 3"
    by (simp add: in_code_block_def fence_doc_def)
  from classify_toggle_first [OF fence_doc_ranged l(1)] o
  obtain cs where cs: "classify fence_doc = Inr cs" "fst (cs ! 1)" by blast
  from classify_toggle_first [OF fence_doc_ranged l(2)] c b
  obtain cs' where cs': "classify fence_doc = Inr cs'" "\<not> fst (cs' ! 3)" by blast
  from cs(1) cs'(1) have "cs' = cs" by simp
  with cs cs' fence_doc_ranged l o c show ?thesis by blast
qed

section \<open>MD031\<close>

text \<open>
  C2, as the code has it. MD031 flags a fence line exactly when the line it
  examines exists and is non-empty; that line is the previous line for an opening
  fence (and for a fence line covered by a code_block token), and the next line
  for a closing fence.
\<close>

theorem MD031_flags:
  assumes "code_blocks_ranged p"
  shows "MD031 p = Inr (map (\<lambda>i. int i + 1)
           (filter (\<lambda>i. fence_re (lines p ! i) \<and>
                      (if opening_fence (lines p) i \<or> in_code_block p i
                       then 1 \<le> i \<and> lines p ! (i - 1) \<noteq> []
                       else i + 1 < length (lines p) \<and> lines p ! (i + 1) \<noteq> []))
              [0..<length (lines p)]))"
proof -
  let ?P = "\<lambda>i. fence_re (lines p ! i) \<and>
         (in_code p i \<and> 1 \<le> i \<and> length (lines p ! (i - 1)) \<noteq> 0 \<or>
          \<not> in_code p i \<and> i + 1 < length (lines p) \<and> length (lines p ! (i + 1)) \<noteq> 0)"
  let ?Q = "\<lambda>i. fence_re (lines p ! i) \<and>
         (if opening_fence (lines p) i \<or> in_code_block p i
          then 1 \<le> i \<and> lines p ! (i - 1) \<noteq> []
          else i + 1 < length (lines p) \<and> lines p ! (i + 1) \<noteq> [])"
  have eq: "?P i = ?Q i" if "i \<in> set [0..<length (lines p)]" for i
    using that by (auto simp add: in_code_def opening_fence_def fences_before_Suc)
  have fl: "filter ?P [0..<length (lines p)] = filter ?Q [0..<length (lines p)]"
    by (rule filter_cong [OF refl]) (rule eq)
  have "MD031 p = Inr ([] @ map (\<lambda>i. int i + 1) (filter ?P [0..<length (lines p)]))"
    unfolding MD031_def
    by (rule forEachLine_push [OF assms, where Q = "\<lambda>l j c onf. onf \<and>
          (c \<and> 1 \<le> j \<and> length (lines p ! (j - 1)) \<noteq> 0 \<or>
           \<not> c \<and> j + 1 < length (lines p) \<and> length (lines p ! (j + 1)) \<noteq> 0)"])
  then show ?thesis unfolding fl by simp
qed


theorem MD031_flags_witness:
  "code_blocks_ranged tight_fence_doc \<and> MD031 tight_fence_doc = Inr [2, 4]"
proof -
  have r: "code_blocks_ranged tight_fence_doc"
    by (simp add: code_blocks_ranged_def tight_fence_doc_def filterTokens_def)
  have "MD031 tight_fence_doc = Inr (map (\<lambda>i. int i + 1)
           (filter (\<lambda>i. fence_re (lines tight_fence_doc ! i) \<and>
                      (if opening_fence (lines tight_fence_doc) i \<or> in_code_block tight_fence_doc i
                       then 1 \<le> i \<and> lines tight_fence_doc ! (i - 1) \<noteq> []
                       else i + 1 < length (lines tight_fence_doc) \<and>
                            lines tight_fence_doc ! (i + 1) \<noteq> []))
              [0..<length (lines tight_fence_doc)]))"
    by (rule MD031_flags [OF r])
  also have "\<dots> = Inr [2, 4]"
    by (simp add: tight_fence_doc_def fence_re_def opening_fence_def fences_before_def
        in_code_block_def upt_rec eval_nat_numeral)
  finally show ?thesis using r by simp
qed

text \<open>
  On a fenced block with blank lines around it the specification's wording flags
  the opening fence (its next line is code), and the code flags nothing.
\<close>

theorem MD031_counterexample: "MD031_as_claimed fence_doc 1 \<and> MD031 fence_doc = Inr []"
  by (simp add: MD031_as_claimed_def fence_doc_def fence_re_def closing_fence_def
      fences_before_def MD031_def forEachLine_def filterTokens_def)

section \<open>MD012\<close>

lemma trim_empty_iff: "trim l = [] \<longleftrightarrow> blank l"
proof
  assume "trim l = []"
  then have h: "dropWhile is_space (rev (dropWhile is_space l)) = []" by (simp add: trim_def)
  have "dropWhile is_space l = []"
  proof (rule ccontr)
    assume ne: "dropWhile is_space l \<noteq> []"
    then have "\<not> is_space (hd (dropWhile is_space l))" by (rule hd_dropWhile)
    moreover have "hd (dropWhile is_space l) \<in> set (rev (dropWhile is_space l))"
      using ne by simp
    moreover have "\<forall>c\<in>set (rev (dropWhile is_space l)). is_space c"
      using h by (metis dropWhile_eq_Nil_conv)
    ultimately show False by blast
  qed
  then show "blank l" by (simp add: blank_def list_all_iff)
next
  assume "blank l"
  then have "dropWhile is_space l = []" by (simp add: blank_def list_all_iff)
  then show "trim l = []" by (simp add: trim_def del: dropWhile_eq_Nil_conv)
qed

lemma case_fst_Inr: "(case x of (a, b) \<Rightarrow> Inr a) = Inr (fst x)"
  by (cases x) simp

text \<open>The fold of MD012 over the views, with the previous trimmed line made explicit.\<close>

lemma MD012_fold:
  "fst (fold (\<lambda>(l, j, c, onf) (e, pv).
           let l' = trim l
           in (if \<not> c \<and> length l' = 0 \<and> length pv = 0 then e @ [int j + 1] else e, l'))
        xs (e0, pv0)) =
   e0 @ map (\<lambda>(x, pv). int (fst (snd x)) + 1)
          (filter (\<lambda>(x, pv). \<not> fst (snd (snd x)) \<and> trim (fst x) = [] \<and> pv = [])
             (zip xs (pv0 # map (\<lambda>x. trim (fst x)) xs)))"
proof (induction xs arbitrary: e0 pv0)
  case Nil
  then show ?case by simp
next
  case (Cons x xs)
  obtain l j c onf where x: "x = (l, j, c, onf)" by (cases x) auto
  let ?F = "\<lambda>(l, j, c, onf) (e, pv).
           let l' = trim l
           in (if \<not> c \<and> length l' = 0 \<and> length pv = 0 then e @ [int j + 1] else e, l')"
  let ?e1 = "if \<not> c \<and> trim l = [] \<and> pv0 = [] then e0 @ [int j + 1] else e0"
  have step: "?F x (e0, pv0) = (?e1, trim l)" by (simp add: x Let_def)
  have "fst (fold ?F (x # xs) (e0, pv0)) = fst (fold ?F xs (?e1, trim l))"
    by (simp only: fold_simps step)
  also have "\<dots> = ?e1 @ map (\<lambda>(x, pv). int (fst (snd x)) + 1)
          (filter (\<lambda>(x, pv). \<not> fst (snd (snd x)) \<and> trim (fst x) = [] \<and> pv = [])
             (zip xs (trim l # map (\<lambda>x. trim (fst x)) xs)))"
    by (rule Cons.IH)
  finally show ?case by (simp add: x)
qed

lemma MD012_result:
  assumes "code_blocks_ranged p"
  shows "MD012 p = Inr (map (\<lambda>i. int i + 1)
           (filter (\<lambda>i. \<not> in_code p i \<and> blank (lines p ! i) \<and> 1 \<le> i \<and> blank (lines p ! (i - 1)))
              [0..<length (lines p)]))"
proof -
  let ?n = "length (lines p)"
  let ?prevs = "''-'' # map (\<lambda>x. trim (fst x)) (line_views p)"
  let ?P = "\<lambda>(x, pv). \<not> fst (snd (snd x)) \<and> trim (fst x) = [] \<and> pv = []"
  let ?z = "zip (line_views p) ?prevs"
  have lenz: "length ?z = ?n" by (simp add: line_views_def)
  have z: "?z = map (\<lambda>i. (line_views p ! i, ?prevs ! i)) [0..<?n]"
    by (rule nth_equalityI) (simp_all add: line_views_def)
  have v: "\<And>i. i < ?n \<Longrightarrow> line_views p ! i = (lines p ! i, i, in_code p i, fence_re (lines p ! i))"
    by (simp add: line_views_def)
  have pv: "\<And>i. i < ?n \<Longrightarrow> ?prevs ! i = (if i = 0 then ''-'' else trim (lines p ! (i - 1)))"
    by (simp add: nth_Cons' line_views_def)
  have "map (\<lambda>(x, pv). int (fst (snd x)) + 1) (filter ?P ?z) =
        map (\<lambda>i. int i + 1)
          (filter (\<lambda>i. \<not> in_code p i \<and> blank (lines p ! i) \<and> 1 \<le> i \<and> blank (lines p ! (i - 1)))
             [0..<?n])"
    (is "?lhs = ?rhs")
  proof -
    have "filter ?P ?z = map (\<lambda>i. (line_views p ! i, ?prevs ! i))
        (filter (\<lambda>i. ?P (line_views p ! i, ?prevs ! i)) [0..<?n])"
      by (subst z) (simp add: filter_map comp_def)
    also have "filter (\<lambda>i. ?P (line_views p ! i, ?prevs ! i)) [0..<?n] =
       filter (\<lambda>i. \<not> in_code p i \<and> blank (lines p ! i) \<and> 1 \<le> i \<and> blank (lines p ! (i - 1))) [0..<?n]"
      by (rule filter_cong [OF refl]) (auto simp add: v pv trim_empty_iff simp del: nth_Cons')
    finally have "?lhs = map (\<lambda>(x, pv). int (fst (snd x)) + 1)
       (map (\<lambda>i. (line_views p ! i, ?prevs ! i))
         (filter (\<lambda>i. \<not> in_code p i \<and> blank (lines p ! i) \<and> 1 \<le> i \<and> blank (lines p ! (i - 1))) [0..<?n]))"
      by simp
    also have "\<dots> = ?rhs"
      by (simp add: comp_def v cong: map_cong)
    finally show ?thesis .
  qed
  then show ?thesis
    unfolding MD012_def forEachLine_views [OF assms] sum.case case_fst_Inr MD012_fold
    by simp
qed

lemma in_pushed: "int i + 1 \<in> set (map (\<lambda>i. int i + 1) (filter P [0..<n])) \<longleftrightarrow> i < n \<and> P i"
  by auto

text \<open>
  C8, as the code has it. When lines 10, 11 and 12 are blank and outside code
  regions and lines 9 and 13 are not blank, MD012 flags lines 11 and 12 (each the
  second line of a pair of adjacent blank lines) and none of lines 9, 10 and 13.
  The indices are those of the line array, one less than the line numbers.
\<close>

theorem MD012_three_blank_lines:
  assumes "code_blocks_ranged p" and "13 \<le> length (lines p)"
    and "blank (lines p ! 9)" and "blank (lines p ! 10)" and "blank (lines p ! 11)"
    and "\<not> in_code p 9" and "\<not> in_code p 10" and "\<not> in_code p 11"
    and "\<not> blank (lines p ! 8)" and "\<not> blank (lines p ! 12)"
  shows "\<exists>es. MD012 p = Inr es \<and> 11 \<in> set es \<and> 12 \<in> set es \<and>
           9 \<notin> set es \<and> 10 \<notin> set es \<and> 13 \<notin> set es"
proof -
  let ?P = "\<lambda>i. \<not> in_code p i \<and> blank (lines p ! i) \<and> 1 \<le> i \<and> blank (lines p ! (i - 1))"
  let ?es = "map (\<lambda>i. int i + 1) (filter ?P [0..<length (lines p)])"
  have r: "MD012 p = Inr ?es" by (rule MD012_result [OF assms(1)])
  have m: "\<And>i. int i + 1 \<in> set ?es \<longleftrightarrow> i < length (lines p) \<and> ?P i"
    by (rule in_pushed)
  have "11 \<in> set ?es" using m [of 10] assms by simp
  moreover have "12 \<in> set ?es" using m [of 11] assms by simp
  moreover have "9 \<notin> set ?es" using m [of 8] assms by simp
  moreover have "10 \<notin> set ?es" using m [of 9] assms by simp
  moreover have "13 \<notin> set ?es" using m [of 12] assms by simp
  ultimately show ?thesis using r by blast
qed

text \<open>
  Three blank lines 10 to 12 between non-blank lines: the code flags line 11 as
  well as line 12.
\<close>

theorem MD012_counterexample: "MD012 blank_run_doc = Inr [11, 12]"
  by (simp add: MD012_def blank_run_doc_def forEachLine_def filterTokens_def fence_re_def
      trim_def is_space_def Let_def)

theorem MD012_three_blank_lines_witness:
  "code_blocks_ranged blank_run_doc \<and> 13 \<le> length (lines blank_run_doc) \<and>
   blank (lines blank_run_doc ! 10) \<and> \<not> in_code blank_run_doc 10 \<and>
   (\<exists>es. MD012 blank_run_doc = Inr es \<and> 11 \<in> set es \<and> 12 \<in> set es \<and> 10 \<notin> set es)"
proof -
  have r: "code_blocks_ranged blank_run_doc"
    by (simp add: code_blocks_ranged_def blank_run_doc_def filterTokens_def)
  have n: "13 \<le> length (lines blank_run_doc)" by (simp add: blank_run_doc_def)
  have b: "blank (lines blank_run_doc ! 9)" "blank (lines blank_run_doc ! 10)"
    "blank (lines blank_run_doc ! 11)"
    by (simp_all add: blank_run_doc_def blank_def is_space_def)
  have c: "\<not> in_code blank_run_doc 9" "\<not> in_code blank_run_doc 10"
    "\<not> in_code blank_run_doc 11"
    by (simp_all add: in_code_def in_code_block_def fences_before_def blank_run_doc_def
        fence_re_def eval_nat_numeral)
  have nb: "\<not> blank (lines blank_run_doc ! 8)" "\<not> blank (lines blank_run_doc ! 12)"
    by (simp_all add: blank_run_doc_def blank_def is_space_def)
  from MD012_three_blank_lines [OF r n b c nb] r n b(2) c(2) show ?thesis by blast
qed

section \<open>MD018 and MD020\<close>

lemma hash_nospace_re_iff:
  "hash_nospace_re s \<longleftrightarrow>
   (\<exists>k c r. 0 < k \<and> s = replicate k (CHR ''#'') @ c # r \<and> c \<noteq> CHR ''#'' \<and> \<not> is_space c)"
proof
  assume h: "hash_nospace_re s"
  then obtain s' where s: "s = CHR ''#'' # s'"
    by (cases s) (auto simp add: hash_nospace_re_def)
  from h s obtain d r where d: "dropWhile (\<lambda>c. c = CHR ''#'') s = d # r" "\<not> is_space d"
    by (cases "dropWhile (\<lambda>c. c = CHR ''#'') s")
       (auto simp add: hash_nospace_re_def split: list.splits)
  have dn: "d \<noteq> CHR ''#''" using hd_dropWhile [of "\<lambda>c. c = CHR ''#''" s] d(1) by auto
  let ?k = "length (takeWhile (\<lambda>c. c = CHR ''#'') s)"
  have tw: "takeWhile (\<lambda>c. c = CHR ''#'') s = replicate ?k (CHR ''#'')"
    by (rule replicate_length_same [symmetric]) (auto dest: set_takeWhileD)
  have "s = takeWhile (\<lambda>c. c = CHR ''#'') s @ dropWhile (\<lambda>c. c = CHR ''#'') s" by simp
  then have "s = replicate ?k (CHR ''#'') @ d # r" using tw d(1) by metis
  moreover have "0 < ?k" using s by simp
  ultimately show "\<exists>k c r. 0 < k \<and> s = replicate k (CHR ''#'') @ c # r \<and> c \<noteq> CHR ''#'' \<and> \<not> is_space c"
    using dn d(2) by blast
next
  assume "\<exists>k c r. 0 < k \<and> s = replicate k (CHR ''#'') @ c # r \<and> c \<noteq> CHR ''#'' \<and> \<not> is_space c"
  then obtain k c r where k: "0 < k" "s = replicate k (CHR ''#'') @ c # r" "c \<noteq> CHR ''#''"
    "\<not> is_space c" by blast
  have dw: "dropWhile (\<lambda>c. c = CHR ''#'') s = c # r"
    using k(2,3) by (simp add: dropWhile_append3)
  obtain k' where "k = Suc k'" using k(1) by (cases k) auto
  then have "s = CHR ''#'' # (replicate k' (CHR ''#'') @ c # r)" using k(2) by simp
  then show "hash_nospace_re s"
    using dw k(4) by (simp add: hash_nospace_re_def del: dropWhile_eq_Nil_conv split: list.splits)
qed

lemma hash_end_re_iff: "hash_end_re s \<longleftrightarrow> s \<noteq> [] \<and> last s = CHR ''#''"
  by (cases s rule: rev_cases) (simp_all add: hash_end_re_def)

lemma MD018_result:
  assumes "code_blocks_ranged p"
  shows "MD018 p = Inr (map (\<lambda>i. int i + 1)
           (filter (\<lambda>i. \<not> in_code p i \<and> hash_nospace_re (lines p ! i) \<and> \<not> hash_end_re (lines p ! i))
              [0..<length (lines p)]))"
proof -
  have "MD018 p = Inr ([] @ map (\<lambda>i. int i + 1)
           (filter (\<lambda>i. \<not> in_code p i \<and> hash_nospace_re (lines p ! i) \<and> \<not> hash_end_re (lines p ! i))
              [0..<length (lines p)]))"
    unfolding MD018_def
    by (rule forEachLine_push [OF assms,
          where Q = "\<lambda>l j c onf. \<not> c \<and> hash_nospace_re l \<and> \<not> hash_end_re l"])
  then show ?thesis by simp
qed

text \<open>
  C10. MD018 flags every line outside a code region that starts with one or more
  hashes followed by a character that is neither a hash nor whitespace, and that
  does not end in a hash, whatever the tokens say about the line; and the results
  of MD018 and MD020 are the same for two documents with the same lines and the
  same code_block tokens.
\<close>

theorem MD018_MD020_from_text:
  assumes "code_blocks_ranged p"
  shows "(\<exists>es. MD018 p = Inr es \<and>
          (\<forall>i<length (lines p).
             \<not> in_code p i \<and>
             (\<exists>k c r. 0 < k \<and> lines p ! i = replicate k (CHR ''#'') @ c # r \<and>
                       c \<noteq> CHR ''#'' \<and> \<not> is_space c) \<and>
             last (lines p ! i) \<noteq> CHR ''#'' \<longrightarrow> int i + 1 \<in> set es)) \<and>
         (\<forall>q. lines q = lines p \<and>
              filterTokens (tokens q) ''code_block'' None =
                filterTokens (tokens p) ''code_block'' None \<longrightarrow>
              MD018 q = MD018 p \<and> MD020 q = MD020 p)"
proof -
  let ?P = "\<lambda>i. \<not> in_code p i \<and> hash_nospace_re (lines p ! i) \<and> \<not> hash_end_re (lines p ! i)"
  let ?es = "map (\<lambda>i. int i + 1) (filter ?P [0..<length (lines p)])"
  have r: "MD018 p = Inr ?es" by (rule MD018_result [OF assms])
  have m: "\<And>i. int i + 1 \<in> set ?es \<longleftrightarrow> i < length (lines p) \<and> ?P i"
    by (rule in_pushed)
  have a: "\<forall>i<length (lines p).
             \<not> in_code p i \<and>
             (\<exists>k c r. 0 < k \<and> lines p ! i = replicate k (CHR ''#'') @ c # r \<and>
                       c \<noteq> CHR ''#'' \<and> \<not> is_space c) \<and>
             last (lines p ! i) \<noteq> CHR ''#'' \<longrightarrow> int i + 1 \<in> set ?es"
  proof (intro allI impI)
    fix i assume i: "i < length (lines p)"
      and h: "\<not> in_code p i \<and>
             (\<exists>k c r. 0 < k \<and> lines p ! i = replicate k (CHR ''#'') @ c # r \<and>
                       c \<noteq> CHR ''#'' \<and> \<not> is_space c) \<and>
             last (lines p ! i) \<noteq> CHR ''#''"
    from h have "hash_nospace_re (lines p ! i)" unfolding hash_nospace_re_iff by blast
    moreover from h have "\<not> hash_end_re (lines p ! i)" unfolding hash_end_re_iff by blast
    ultimately show "int i + 1 \<in> set ?es" using m [of i] i h by blast
  qed
  have b: "\<forall>q. lines q = lines p \<and>
              filterTokens (tokens q) ''code_block'' None =
                filterTokens (tokens p) ''code_block'' None \<longrightarrow>
              MD018 q = MD018 p \<and> MD020 q = MD020 p"
    by (simp add: MD018_def MD020_def forEachLine_def split: sum.splits)
  from r a b show ?thesis by blast
qed

theorem MD018_MD020_from_text_witness:
  "code_blocks_ranged hashtag_doc \<and> \<not> in_code hashtag_doc 1 \<and>
   filterTokens (tokens hashtag_doc) ''heading_open'' None = [] \<and>
   (\<exists>es. MD018 hashtag_doc = Inr es \<and> 2 \<in> set es) \<and>
   MD018 (hashtag_doc\<lparr>tokens := []\<rparr>) = MD018 hashtag_doc \<and>
   MD020 (hashtag_doc\<lparr>tokens := []\<rparr>) = MD020 hashtag_doc"
proof -
  have r: "code_blocks_ranged hashtag_doc"
    by (simp add: code_blocks_ranged_def hashtag_doc_def hashtag_lines_def filterTokens_def block_def closing_def)
  have n: "1 < length (lines hashtag_doc)" by (simp add: hashtag_doc_def hashtag_lines_def)
  have c: "\<not> in_code hashtag_doc 1"
    by (simp add: in_code_def in_code_block_def fences_before_def hashtag_doc_def hashtag_lines_def
        fence_re_def block_def closing_def eval_nat_numeral)
  have h: "filterTokens (tokens hashtag_doc) ''heading_open'' None = []"
    by (simp add: hashtag_doc_def hashtag_lines_def filterTokens_def block_def closing_def)
  have "lines hashtag_doc ! 1 = replicate 1 (CHR ''#'') @ CHR ''h'' # ''ashtag in a paragraph''"
    by (simp add: hashtag_doc_def hashtag_lines_def)
  then have t: "\<exists>k c r. 0 < k \<and> lines hashtag_doc ! 1 = replicate k (CHR ''#'') @ c # r \<and>
                       c \<noteq> CHR ''#'' \<and> \<not> is_space c"
    by (intro exI [of _ 1] exI [of _ "CHR ''h''"] exI [of _ "''ashtag in a paragraph''"])
       (simp add: is_space_def)
  have l: "last (lines hashtag_doc ! 1) \<noteq> CHR ''#''" by (simp add: hashtag_doc_def hashtag_lines_def)
  have q: "lines (hashtag_doc\<lparr>tokens := []\<rparr>) = lines hashtag_doc \<and>
        filterTokens (tokens (hashtag_doc\<lparr>tokens := []\<rparr>)) ''code_block'' None =
          filterTokens (tokens hashtag_doc) ''code_block'' None"
    by (simp add: hashtag_doc_def hashtag_lines_def filterTokens_def block_def closing_def)
  from MD018_MD020_from_text [OF r] obtain es where es: "MD018 hashtag_doc = Inr es"
    "\<forall>i<length (lines hashtag_doc).
       \<not> in_code hashtag_doc i \<and>
       (\<exists>k c r. 0 < k \<and> lines hashtag_doc ! i = replicate k (CHR ''#'') @ c # r \<and>
                 c \<noteq> CHR ''#'' \<and> \<not> is_space c) \<and>
       last (lines hashtag_doc ! i) \<noteq> CHR ''#'' \<longrightarrow> int i + 1 \<in> set es"
    and ind: "MD018 (hashtag_doc\<lparr>tokens := []\<rparr>) = MD018 hashtag_doc \<and>
        MD020 (hashtag_doc\<lparr>tokens := []\<rparr>) = MD020 hashtag_doc"
    using q by blast
  from es(2) n c t l have "int 1 + 1 \<in> set es" by blast
  then have "2 \<in> set es" by simp
  with r c h es(1) ind show ?thesis by blast
qed

section \<open>MD013\<close>

lemma line_length_re_iff:
  "line_length_re n s \<longleftrightarrow>
   (\<exists>j. n \<le> j \<and> j < length s \<and> is_space (s ! j)) \<and>
   (\<forall>k<n. k < length s \<longrightarrow> \<not> is_line_terminator (s ! k))"
proof -
  have a: "list_ex is_space (drop n s) \<longleftrightarrow> (\<exists>j. n \<le> j \<and> j < length s \<and> is_space (s ! j))"
  proof
    assume "list_ex is_space (drop n s)"
    then obtain i where "i < length (drop n s)" "is_space (drop n s ! i)"
      by (auto simp add: list_ex_iff in_set_conv_nth)
    then have "n \<le> n + i \<and> n + i < length s \<and> is_space (s ! (n + i))" by auto
    then show "\<exists>j. n \<le> j \<and> j < length s \<and> is_space (s ! j)" by blast
  next
    assume "\<exists>j. n \<le> j \<and> j < length s \<and> is_space (s ! j)"
    then obtain j where j: "n \<le> j" "j < length s" "is_space (s ! j)" by blast
    then have "j - n < length (drop n s)" "drop n s ! (j - n) = s ! j" by auto
    then have "s ! j \<in> set (drop n s)" by (metis nth_mem)
    with j(3) show "list_ex is_space (drop n s)" by (auto simp add: list_ex_iff)
  qed
  have b: "list_all (\<lambda>c. \<not> is_line_terminator c) (take n s) \<longleftrightarrow>
      (\<forall>k<n. k < length s \<longrightarrow> \<not> is_line_terminator (s ! k))"
  proof
    assume h: "list_all (\<lambda>c. \<not> is_line_terminator c) (take n s)"
    show "\<forall>k<n. k < length s \<longrightarrow> \<not> is_line_terminator (s ! k)"
    proof (intro allI impI)
      fix k assume k: "k < n" "k < length s"
      then have "take n s ! k = s ! k" "k < length (take n s)" by simp_all
      then have "s ! k \<in> set (take n s)" by (metis nth_mem)
      with h show "\<not> is_line_terminator (s ! k)" by (simp add: list_all_iff)
    qed
  next
    assume "\<forall>k<n. k < length s \<longrightarrow> \<not> is_line_terminator (s ! k)"
    then show "list_all (\<lambda>c. \<not> is_line_terminator c) (take n s)"
      by (auto simp add: list_all_iff in_set_conv_nth)
  qed
  have c: "(\<exists>j. n \<le> j \<and> j < length s \<and> is_space (s ! j)) \<Longrightarrow> n \<le> length s" by auto
  show ?thesis unfolding line_length_re_def a b using c by blast
qed

text \<open>
  C6, as the code has it. MD013 flags exactly the lines that have a whitespace
  character at an index at or after the threshold, with no line terminator among
  the characters before the threshold. A line longer than the threshold with no
  whitespace from the threshold on is not flagged.
\<close>

theorem MD013_flags:
  "MD013 p = Inr (map (\<lambda>i. int i + 1)
     (filter (\<lambda>i. (\<exists>j. num_or (o_line_length (options p)) 80 \<le> j \<and> j < length (lines p ! i) \<and>
                        is_space (lines p ! i ! j)) \<and>
                   (\<forall>k<num_or (o_line_length (options p)) 80.
                      k < length (lines p ! i) \<longrightarrow> \<not> is_line_terminator (lines p ! i ! k)))
        [0..<length (lines p)]))"
  unfolding MD013_def Let_def forEach_push line_length_re_iff by simp

text \<open>
  With the default threshold a line of 81 letters is not flagged; a line of 80
  letters, a space and a letter is.
\<close>

theorem MD013_counterexample:
  "length (lines long_lines_doc ! 0) = 81 \<and> o_line_length (options long_lines_doc) = None \<and>
   MD013 long_lines_doc = Inr [2]"
  by (simp add: MD013_def long_lines_doc_def no_options_def num_or_def forEach_def
      line_length_re_def is_space_def is_line_terminator_def enumerate_eq_zip upt_rec list_all_iff list_ex_iff)

theorem MD013_flags_witness: "MD013 spaced_doc = Inr [2]"
proof -
  have "MD013 spaced_doc = Inr (map (\<lambda>i. int i + 1)
     (filter (\<lambda>i. line_length_re (num_or (o_line_length (options spaced_doc)) 80)
                     (lines spaced_doc ! i))
        [0..<length (lines spaced_doc)]))"
    unfolding line_length_re_iff by (rule MD013_flags)
  also have "\<dots> = Inr [2]"
    by (simp add: spaced_doc_def no_options_def num_or_def line_length_re_def is_space_def
        is_line_terminator_def upt_rec)
  finally show ?thesis .
qed

section \<open>Numeric options set to zero\<close>

text \<open>
  C9. A numeric option set to 0 gives the result of the absent option, which is
  the result of the default value: 80 for \<^verbatim>\<open>line_length\<close> of MD013, 2 for \<^verbatim>\<open>indent\<close>
  of MD007, 1 for each of the four spacing options of MD030.
\<close>

theorem zero_option_is_default:
  "MD013 (p\<lparr>options := (options p)\<lparr>o_line_length := Some 0\<rparr>\<rparr>) =
     MD013 (p\<lparr>options := (options p)\<lparr>o_line_length := None\<rparr>\<rparr>) \<and>
   MD013 (p\<lparr>options := (options p)\<lparr>o_line_length := Some 0\<rparr>\<rparr>) =
     MD013 (p\<lparr>options := (options p)\<lparr>o_line_length := Some 80\<rparr>\<rparr>) \<and>
   MD007 (p\<lparr>options := (options p)\<lparr>o_indent := Some 0\<rparr>\<rparr>) =
     MD007 (p\<lparr>options := (options p)\<lparr>o_indent := None\<rparr>\<rparr>) \<and>
   MD007 (p\<lparr>options := (options p)\<lparr>o_indent := Some 0\<rparr>\<rparr>) =
     MD007 (p\<lparr>options := (options p)\<lparr>o_indent := Some 2\<rparr>\<rparr>) \<and>
   MD030 (p\<lparr>options := (options p)\<lparr>o_ul_single := Some 0\<rparr>\<rparr>) =
     MD030 (p\<lparr>options := (options p)\<lparr>o_ul_single := None\<rparr>\<rparr>) \<and>
   MD030 (p\<lparr>options := (options p)\<lparr>o_ul_single := Some 0\<rparr>\<rparr>) =
     MD030 (p\<lparr>options := (options p)\<lparr>o_ul_single := Some 1\<rparr>\<rparr>) \<and>
   MD030 (p\<lparr>options := (options p)\<lparr>o_ol_single := Some 0\<rparr>\<rparr>) =
     MD030 (p\<lparr>options := (options p)\<lparr>o_ol_single := None\<rparr>\<rparr>) \<and>
   MD030 (p\<lparr>options := (options p)\<lparr>o_ol_single := Some 0\<rparr>\<rparr>) =
     MD030 (p\<lparr>options := (options p)\<lparr>o_ol_single := Some 1\<rparr>\<rparr>) \<and>
   MD030 (p\<lparr>options := (options p)\<lparr>o_ul_multi := Some 0\<rparr>\<rparr>) =
     MD030 (p\<lparr>options := (options p)\<lparr>o_ul_multi := None\<rparr>\<rparr>) \<and>
   MD030 (p\<lparr>options := (options p)\<lparr>o_ul_multi := Some 0\<rparr>\<rparr>) =
     MD030 (p\<lparr>options := (options p)\<lparr>o_ul_multi := Some 1\<rparr>\<rparr>) \<and>
   MD030 (p\<lparr>options := (options p)\<lparr>o_ol_multi := Some 0\<rparr>\<rparr>) =
     MD030 (p\<lparr>options := (options p)\<lparr>o_ol_multi := None\<rparr>\<rparr>) \<and>
   MD030 (p\<lparr>options := (options p)\<lparr>o_ol_multi := Some 0\<rparr>\<rparr>) =
     MD030 (p\<lparr>options := (options p)\<lparr>o_ol_multi := Some 1\<rparr>\<rparr>)"
  by (simp add: MD013_def MD007_def MD030_def num_or_def)

section \<open>MD025\<close>

lemma MD025_fold:
  "fst (fold
       (\<lambda>t (errors, hasTopLevelHeading).
          if hLevel t = 1 then
            (if hasTopLevelHeading then (errors @ [lineNumber t], hasTopLevelHeading)
             else if lineNumber t = 1 then (errors, True)
             else (errors, hasTopLevelHeading))
          else (errors, hasTopLevelHeading))
       hs (e0, b)) =
   e0 @ map lineNumber (filter (\<lambda>t. hLevel t = 1)
          (if b then hs else tl (dropWhile (\<lambda>t. \<not> (hLevel t = 1 \<and> lineNumber t = 1)) hs)))"
  by (induction hs arbitrary: e0 b) auto

text \<open>
  C7, as the code has it. MD025 flags exactly the level-1 headings that come after
  the first level-1 heading with line number 1, in the order of the heading_open
  tokens; a document without a level-1 heading on line 1 has no line flagged.
\<close>

theorem MD025_flags:
  "MD025 p = Inr (map lineNumber (filter (\<lambda>t. hLevel t = 1)
     (tl (dropWhile (\<lambda>t. \<not> (hLevel t = 1 \<and> lineNumber t = 1))
        (filterTokens (tokens p) ''heading_open'' None)))))"
  unfolding MD025_def MD025_fold by simp

text \<open>
  Two level-1 headings on lines 3 and 5: the second is not the first heading and
  not on line 1, and the code does not flag it.
\<close>

theorem MD025_counterexample:
  "map (\<lambda>t. (hLevel t, lineNumber t)) (filterTokens (tokens late_h1_doc) ''heading_open'' None) =
     [(1, 3), (1, 5)] \<and>
   MD025 late_h1_doc = Inr []"
  by (simp add: MD025_def late_h1_doc_def late_h1_lines_def filterTokens_def block_def
      closing_def)

section \<open>flattenLists\<close>

lemma length_splice_in [simp]: "length (splice_in k x xs) = Suc (length xs)"
  by (simp add: splice_in_def)

lemma splice_in_end [simp]: "splice_in (length xs) x xs = xs @ [x]"
  by (simp add: splice_in_def)

lemma map_splice_in: "map f (splice_in k x xs) = splice_in k (f x) (map f xs)"
  by (simp add: splice_in_def take_map drop_map)

lemma splice_in_swap:
  assumes "i \<le> k" and "k \<le> length xs"
  shows "splice_in i y (splice_in k x xs) = splice_in (Suc k) x (splice_in i y xs)"
proof -
  have t: "take i (take k xs @ x # drop k xs) = take i xs" using assms by simp
  have d: "drop i (take k xs @ x # drop k xs) = drop i (take k xs) @ x # drop k xs"
    using assms by simp
  have t2: "take (Suc k) (take i xs @ y # drop i xs) = take i xs @ y # take (k - i) (drop i xs)"
    using assms by (simp add: min_absorb2 Suc_diff_le)
  have d2: "drop (Suc k) (take i xs @ y # drop i xs) = drop (k - i) (drop i xs)"
    using assms by (simp add: min_absorb2 Suc_diff_le)
  have e1: "drop i (take k xs) = take (k - i) (drop i xs)" by (simp add: drop_take)
  have e2: "drop (k - i) (drop i xs) = drop k xs" using assms by simp
  show ?thesis unfolding splice_in_def t d t2 d2 e1 e2 by simp
qed

lemma length_weave [simp]: "length (weave ks xs) = length ks + length xs"
  by (induction ks xs rule: weave.induct) simp_all

lemma weave_splice_in:
  "list_all (\<lambda>(i, y). i \<le> k) ks \<Longrightarrow> k \<le> length xs \<Longrightarrow>
   weave ks (splice_in k x xs) = splice_in (k + length ks) x (weave ks xs)"
proof (induction ks arbitrary: k xs)
  case Nil
  then show ?case by simp
next
  case (Cons a ks)
  obtain i y where a: "a = (i, y)" by (cases a)
  from Cons.prems a have i: "i \<le> k" and r: "list_all (\<lambda>(i, y). i \<le> k) ks" by simp_all
  have r': "list_all (\<lambda>(i, y). i \<le> Suc k) ks"
    using r by (auto simp add: list_all_iff)
  have "weave (a # ks) (splice_in k x xs) = weave ks (splice_in (Suc k) x (splice_in i y xs))"
    using a splice_in_swap [OF i Cons.prems(2)] by simp
  also have "\<dots> = splice_in (Suc k + length ks) x (weave ks (splice_in i y xs))"
    using Cons.prems(2) by (intro Cons.IH [OF r']) simp
  finally show ?case using a by simp
qed

lemma weave_snoc:
  assumes "list_all (\<lambda>(i, y). i \<le> length xs) ks"
  shows "weave ks (xs @ [x]) = weave ks xs @ [x]"
proof -
  have "weave ks (splice_in (length xs) x xs) =
        splice_in (length xs + length ks) x (weave ks xs)"
    by (rule weave_splice_in [OF assms]) simp
  moreover have "length xs + length ks = length (weave ks xs)" by simp
  ultimately show ?thesis by (metis splice_in_end)
qed

lemma subseq_splice_in: "subseq xs (splice_in k x xs)"
proof -
  have "subseq (take k xs @ drop k xs) (take k xs @ x # drop k xs)"
    by (intro list_emb_append_mono subseq_order.order_refl list_emb_Cons)
  then show ?thesis by (simp add: splice_in_def)
qed

lemma subseq_weave: "subseq xs (weave ks xs)"
proof (induction ks xs rule: weave.induct)
  case (1 xs)
  then show ?case by simp
next
  case (2 k x ks xs)
  have "subseq xs (splice_in k x xs)" by (rule subseq_splice_in)
  with 2 show ?case by (simp add: subseq_order.order_trans)
qed

lemma mono_inserts_weaken: "mono_inserts n ds \<Longrightarrow> n \<le> m \<Longrightarrow> mono_inserts m ds"
  by (cases ds) (auto split: option.splits)

lemma mono_inserts_keys: "mono_inserts n ds \<Longrightarrow> list_all (\<lambda>(i, y). i \<le> n) (keys ds)"
proof (induction ds arbitrary: n)
  case Nil
  then show ?case by (simp add: keys_def)
next
  case (Cons d ds)
  then obtain k where k: "insert_at d = Some k" "k \<le> n" "mono_inserts k ds"
    by (auto split: option.splits)
  from Cons.IH [OF k(3)] have "list_all (\<lambda>(i, y). i \<le> k) (keys ds)" .
  then have "list_all (\<lambda>(i, y). i \<le> n) (keys ds)"
    using k(2) by (auto simp add: list_all_iff)
  then show ?case using k by (simp add: keys_def)
qed

lemma somes_simps [simp]:
  "somes [] = []" "somes (None # xs) = somes xs" "somes (Some x # xs) = x # somes xs"
  by (simp_all add: somes_def)

lemma somes_pop: "somes (fst (pop st) # snd (pop st)) = somes st"
  by (cases st) (simp_all add: pop_def)

lemma flatten_open:
  assumes "is_list_open t"
  shows "flatten_token f t s =
    Inr (s\<lparr>fl_stack := fl_current s # fl_stack s,
           fl_current := Some \<lparr>ordered = (ttype t = ''ordered_list_open''), open_token = t,
                                items = [], nesting = length (fl_stack s),
                                lastLineIndex = - 1,
                                insert_at = Some (length (fl_lists s))\<rparr>\<rparr>)"
  using assms by (simp add: flatten_token_def Let_def)

lemma flatten_close:
  assumes "\<not> is_list_open t" and "is_list_close t" and "flatten_token f t s = Inr s'"
  shows "\<exists>cur lw a b.
     fl_current s = Some cur \<and> fl_lastWithLines s = Some lw \<and> tlines lw = Some (a, b) \<and>
     s' = s\<lparr>fl_lists :=
               (if f = None \<or> f = Some (ordered cur)
                then (case insert_at cur of
                        Some i \<Rightarrow> splice_in i (cur\<lparr>lastLineIndex := b, insert_at := None\<rparr>) (fl_lists s)
                      | None \<Rightarrow> cur\<lparr>lastLineIndex := b\<rparr> # fl_lists s)
                else fl_lists s),
             fl_current := fst (pop (fl_stack s)),
             fl_stack := snd (pop (fl_stack s))\<rparr>"
  using assms
  by (auto simp add: flatten_token_def Let_def case_prod_unfold
      split: option.splits if_splits)

lemma flatten_item:
  assumes "\<not> is_list_open t" and "\<not> is_list_close t" and "ttype t = ''list_item_open''"
    and "flatten_token f t s = Inr s'"
  shows "\<exists>cur. fl_current s = Some cur \<and>
     s' = s\<lparr>fl_current := Some (cur\<lparr>items := items cur @ [t]\<rparr>)\<rparr>"
  using assms by (auto simp add: flatten_token_def split: option.splits)

lemma flatten_other:
  assumes "\<not> is_list_open t" and "\<not> is_list_close t" and "ttype t \<noteq> ''list_item_open''"
  shows "flatten_token f t s =
     Inr (if tlines t \<noteq> None then s\<lparr>fl_lastWithLines := Some t\<rparr> else s)"
  using assms by (simp add: flatten_token_def)

lemma flatten_token_inv:
  assumes step: "flatten_token f t s = Inr s'" and inv: "flat_inv s W"
  shows "flat_inv s' (W @ filter is_list_open [t])"
proof -
  let ?L = "fl_lists s"
  let ?Lt = "map open_token ?L"
  from inv have mono: "mono_inserts (length ?L) (pending s)"
    and sub: "subseq (weave (keys (pending s)) ?Lt) W"
    by (simp_all add: flat_inv_def)
  consider (op) "is_list_open t"
    | (cl) "\<not> is_list_open t" "is_list_close t"
    | (it) "\<not> is_list_open t" "\<not> is_list_close t" "ttype t = ''list_item_open''"
    | (ot) "\<not> is_list_open t" "\<not> is_list_close t" "ttype t \<noteq> ''list_item_open''"
    by blast
  then show ?thesis
  proof cases
    case op
    let ?new = "\<lparr>ordered = (ttype t = ''ordered_list_open''), open_token = t,
                  items = [], nesting = length (fl_stack s), lastLineIndex = - 1,
                  insert_at = Some (length ?L)\<rparr>"
    from step flatten_open [OF op, of f s]
    have s': "s' = s\<lparr>fl_stack := fl_current s # fl_stack s, fl_current := Some ?new\<rparr>"
      by simp
    have p: "pending s' = ?new # pending s" by (simp add: s' pending_def)
    have l: "fl_lists s' = ?L" by (simp add: s')
    have m: "mono_inserts (length (fl_lists s')) (pending s')"
      using mono by (simp add: p l)
    have le: "list_all (\<lambda>(i, y). i \<le> length ?Lt) (keys (pending s))"
      using mono_inserts_keys [OF mono] by simp
    have "weave (keys (pending s')) (map open_token (fl_lists s')) =
          weave (keys (pending s)) (splice_in (length ?Lt) t ?Lt)"
      by (simp add: p l keys_def)
    also have "\<dots> = weave (keys (pending s)) (?Lt @ [t])"
      by (simp only: splice_in_end)
    also have "\<dots> = weave (keys (pending s)) ?Lt @ [t]"
      by (rule weave_snoc [OF le])
    finally have "subseq (weave (keys (pending s')) (map open_token (fl_lists s'))) (W @ [t])"
      using sub by (simp add: list_emb_append_mono)
    then show ?thesis using m op by (simp add: flat_inv_def)
  next
    case cl
    from flatten_close [OF cl step] obtain cur lw a b where
      c: "fl_current s = Some cur" and
      s': "s' = s\<lparr>fl_lists :=
               (if f = None \<or> f = Some (ordered cur)
                then (case insert_at cur of
                        Some i \<Rightarrow> splice_in i (cur\<lparr>lastLineIndex := b, insert_at := None\<rparr>) ?L
                      | None \<Rightarrow> cur\<lparr>lastLineIndex := b\<rparr> # ?L)
                else ?L),
             fl_current := fst (pop (fl_stack s)),
             fl_stack := snd (pop (fl_stack s))\<rparr>"
      by blast
    let ?rest = "somes (fl_stack s)"
    have ps: "pending s = cur # ?rest" by (simp add: pending_def c)
    have p: "pending s' = ?rest" by (simp add: s' pending_def somes_pop)
    from mono ps obtain k where k: "insert_at cur = Some k" "k \<le> length ?L"
      "mono_inserts k ?rest"
      by (auto split: option.splits)
    have kk: "keys (pending s) = (k, open_token cur) # keys ?rest"
      by (simp add: ps keys_def k)
    show ?thesis
    proof (cases "f = None \<or> f = Some (ordered cur)")
      case True
      then have l: "fl_lists s' = splice_in k (cur\<lparr>lastLineIndex := b, insert_at := None\<rparr>) ?L"
        by (simp add: s' k)
      have m: "mono_inserts (length (fl_lists s')) (pending s')"
        using mono_inserts_weaken [OF k(3), of "Suc (length ?L)"] k(2) by (simp add: p l)
      have "weave (keys (pending s')) (map open_token (fl_lists s')) =
            weave (keys (pending s)) ?Lt"
        by (simp add: p l kk map_splice_in)
      then show ?thesis using m sub cl by (simp add: flat_inv_def)
    next
      case False
      then have l: "fl_lists s' = ?L" by (auto simp add: s')
      have m: "mono_inserts (length (fl_lists s')) (pending s')"
        using mono_inserts_weaken [OF k(3) k(2)] by (simp add: p l)
      have le: "list_all (\<lambda>(i, y). i \<le> k) (keys ?rest)"
        by (rule mono_inserts_keys [OF k(3)])
      have "weave (keys (pending s)) ?Lt =
            splice_in (k + length (keys ?rest)) (open_token cur) (weave (keys ?rest) ?Lt)"
        using weave_splice_in [OF le, of ?Lt "open_token cur"] k(2) by (simp add: kk)
      then have "subseq (weave (keys ?rest) ?Lt) (weave (keys (pending s)) ?Lt)"
        by (simp add: subseq_splice_in)
      from this sub have "subseq (weave (keys ?rest) ?Lt) W"
        by (rule subseq_order.order_trans)
      then show ?thesis using m cl by (simp add: flat_inv_def p l)
    qed
  next
    case it
    from flatten_item [OF it step] obtain cur where
      c: "fl_current s = Some cur" and
      s': "s' = s\<lparr>fl_current := Some (cur\<lparr>items := items cur @ [t]\<rparr>)\<rparr>"
      by blast
    have ps: "pending s = cur # somes (fl_stack s)" by (simp add: pending_def c)
    have p: "pending s' = cur\<lparr>items := items cur @ [t]\<rparr> # somes (fl_stack s)"
      by (simp add: s' pending_def)
    have l: "fl_lists s' = ?L" by (simp add: s')
    have "keys (pending s') = keys (pending s)" unfolding p ps by (simp add: keys_def)
    moreover have "mono_inserts (length (fl_lists s')) (pending s') =
        mono_inserts (length ?L) (pending s)"
      unfolding l p ps by simp
    ultimately show ?thesis using mono sub it unfolding flat_inv_def l by simp
  next
    case ot
    from step flatten_other [OF ot, of f s]
    have s': "s' = (if tlines t \<noteq> None then s\<lparr>fl_lastWithLines := Some t\<rparr> else s)"
      by simp
    then have "pending s' = pending s" "fl_lists s' = ?L"
      by (simp_all add: pending_def)
    then show ?thesis using mono sub ot by (simp add: flat_inv_def)
  qed
qed

lemma forEachE_flat_inv:
  "forEachE ts (flatten_token f) s = Inr s' \<Longrightarrow> flat_inv s W \<Longrightarrow>
   flat_inv s' (W @ filter is_list_open ts)"
proof (induction ts arbitrary: s W)
  case Nil
  then show ?case by simp
next
  case (Cons t ts)
  from Cons.prems(1) obtain s1 where s1: "flatten_token f t s = Inr s1"
    "forEachE ts (flatten_token f) s1 = Inr s'"
    by (auto split: sum.splits)
  from flatten_token_inv [OF s1(1) Cons.prems(2)]
  have "flat_inv s1 (W @ filter is_list_open [t])" .
  from Cons.IH [OF s1(2) this] show ?case by (cases "is_list_open t") simp_all
qed

lemma flattenLists_subseq:
  assumes "flattenLists ts f = Inr ls"
  shows "subseq (map open_token ls) (filter is_list_open ts)"
proof -
  from assms obtain s' where s': "forEachE ts (flatten_token f) flatten_init = Inr s'"
    "ls = fl_lists s'"
    by (auto simp add: flattenLists_def split: sum.splits)
  have "flat_inv flatten_init []"
    by (simp add: flat_inv_def flatten_init_def pending_def keys_def)
  from forEachE_flat_inv [OF s'(1) this]
  have "subseq (weave (keys (pending s')) (map open_token ls)) (filter is_list_open ts)"
    by (simp add: flat_inv_def s'(2))
  with subseq_weave [of "map open_token ls" "keys (pending s')"]
  show ?thesis by (rule subseq_order.order_trans)
qed

lemma filter_splice_in:
  "filter P (splice_in k d L) =
   (if P d then splice_in (length (filter P (take k L))) d (filter P L) else filter P L)"
proof -
  have L: "filter P L = filter P (take k L) @ filter P (drop k L)"
    by (metis append_take_drop_id filter_append)
  show ?thesis
    by (simp add: splice_in_def L)
qed

lemma mono_inserts_mem:
  "mono_inserts n ds \<Longrightarrow> d \<in> set ds \<Longrightarrow> \<exists>j\<le>n. insert_at d = Some j"
proof (induction ds arbitrary: n)
  case Nil
  then show ?case by simp
next
  case (Cons a ds)
  then obtain k where k: "insert_at a = Some k" "k \<le> n" "mono_inserts k ds"
    by (auto split: option.splits)
  show ?case
  proof (cases "d = a")
    case True
    then show ?thesis using k by simp
  next
    case False
    with Cons.prems have "d \<in> set ds" by simp
    from Cons.IH [OF k(3) this] k(2) show ?thesis by (meson le_trans)
  qed
qed

lemma sim_desc_splice:
  assumes "sim_desc b L d d'" and "insert_at d = Some j" and "j \<le> k" and "k \<le> length L"
  shows "sim_desc b (splice_in k x L) d d'"
proof -
  have "take j (splice_in k x L) = take j L" using assms(3,4) by (simp add: splice_in_def)
  then show ?thesis using assms(1,2) by (simp add: sim_desc_def)
qed

lemma somes_mem: "Some d \<in> set xs \<Longrightarrow> d \<in> set (somes xs)"
  by (induction xs) (auto simp add: somes_def)

lemma sim_stack_splice:
  assumes "list_all2 (rel_option (sim_desc b L)) st st'"
    and "mono_inserts k (somes st)" and "k \<le> length L"
  shows "list_all2 (rel_option (sim_desc b (splice_in k x L))) st st'"
proof (rule list.rel_mono_strong [OF assms(1)])
  fix u u' assume u: "u \<in> set st" "u' \<in> set st'" "rel_option (sim_desc b L) u u'"
  show "rel_option (sim_desc b (splice_in k x L)) u u'"
  proof (cases u)
    case None
    then show ?thesis using u(3) by (cases u') simp_all
  next
    case (Some d)
    with u(3) obtain d' where d': "u' = Some d'" "sim_desc b L d d'"
      by (cases u') simp_all
    from Some u(1) have "d \<in> set (somes st)" by (simp add: somes_mem)
    from mono_inserts_mem [OF assms(2) this] obtain j where "j \<le> k" "insert_at d = Some j"
      by blast
    from sim_desc_splice [OF d'(2) this(2) this(1) assms(3)] show ?thesis
      by (simp add: Some d'(1))
  qed
qed

lemma sim_pop:
  assumes "list_all2 R st st'"
  shows "rel_option Q (fst (pop st)) (fst (pop st')) = (st = [] \<or> rel_option Q (hd st) (hd st'))"
    and "list_all2 R (snd (pop st)) (snd (pop st'))"
  using assms by (cases st; cases st'; simp add: pop_def)+

lemma flatten_close_eq:
  assumes "\<not> is_list_open t" and "is_list_close t"
    and "fl_current s = Some cur" and "fl_lastWithLines s = Some lw" and "tlines lw = Some (a, b)"
  shows "flatten_token f t s =
     Inr (s\<lparr>fl_lists :=
               (if f = None \<or> f = Some (ordered cur)
                then (case insert_at cur of
                        Some i \<Rightarrow> splice_in i (cur\<lparr>lastLineIndex := b, insert_at := None\<rparr>) (fl_lists s)
                      | None \<Rightarrow> cur\<lparr>lastLineIndex := b\<rparr> # fl_lists s)
                else fl_lists s),
             fl_current := fst (pop (fl_stack s)),
             fl_stack := snd (pop (fl_stack s))\<rparr>)"
  using assms by (auto simp add: flatten_token_def Let_def case_prod_unfold split: option.splits)

lemma flatten_close_raise:
  assumes "\<not> is_list_open t" and "is_list_close t"
    and "fl_current s = None \<or> fl_lastWithLines s = None \<or>
         (\<exists>lw. fl_lastWithLines s = Some lw \<and> tlines lw = None)"
  shows "flatten_token f t s = Inl TypeError"
  using assms by (auto simp add: flatten_token_def split: option.splits)

lemma flatten_item_eq:
  assumes "\<not> is_list_open t" and "\<not> is_list_close t" and "ttype t = ''list_item_open''"
  shows "flatten_token f t s =
     (case fl_current s of
        None \<Rightarrow> Inl TypeError
      | Some cur \<Rightarrow> Inr (s\<lparr>fl_current := Some (cur\<lparr>items := items cur @ [t]\<rparr>)\<rparr>))"
  using assms by (simp add: flatten_token_def)

lemma flatten_token_sim:
  assumes sim: "sim_state b s s'" and mono: "mono_inserts (length (fl_lists s)) (pending s)"
  shows "rel_sum (=) (sim_state b) (flatten_token None t s) (flatten_token (Some b) t s')"
proof -
  let ?P = "\<lambda>x. ordered x = b"
  let ?L = "fl_lists s"
  from sim have L': "fl_lists s' = filter ?P ?L"
    and lw: "fl_lastWithLines s' = fl_lastWithLines s"
    and cur: "rel_option (sim_desc b ?L) (fl_current s) (fl_current s')"
    and st: "list_all2 (rel_option (sim_desc b ?L)) (fl_stack s) (fl_stack s')"
    by (simp_all add: sim_state_def)
  from st have len: "length (fl_stack s') = length (fl_stack s)"
    by (simp add: list_all2_lengthD)
  consider (op) "is_list_open t"
    | (cl) "\<not> is_list_open t" "is_list_close t"
    | (it) "\<not> is_list_open t" "\<not> is_list_close t" "ttype t = ''list_item_open''"
    | (ot) "\<not> is_list_open t" "\<not> is_list_close t" "ttype t \<noteq> ''list_item_open''"
    by blast
  then show ?thesis
  proof cases
    case op
    show ?thesis
      unfolding flatten_open [OF op]
      using cur st L' lw len by (simp add: sim_state_def sim_desc_def)
  next
    case cl
    show ?thesis
    proof (cases "fl_current s = None \<or> fl_lastWithLines s = None \<or>
         (\<exists>lw. fl_lastWithLines s = Some lw \<and> tlines lw = None)")
      case True
      then have "fl_current s' = None \<or> fl_lastWithLines s' = None \<or>
         (\<exists>lw. fl_lastWithLines s' = Some lw \<and> tlines lw = None)"
        using cur lw by (cases "fl_current s'") auto
      with True show ?thesis
        by (simp add: flatten_close_raise [OF cl])
    next
      case False
      then obtain c w x y where c: "fl_current s = Some c" and w: "fl_lastWithLines s = Some w"
        and xy: "tlines w = Some (x, y)"
        by (cases "fl_current s"; cases "fl_lastWithLines s") auto
      from cur c obtain c' where c': "fl_current s' = Some c'" "sim_desc b ?L c c'"
        by (cases "fl_current s'") simp_all
      from c'(2) obtain k where k: "insert_at c = Some k"
        "c' = c\<lparr>insert_at := Some (length (filter ?P (take k ?L)))\<rparr>"
        by (auto simp add: sim_desc_def)
      have ps: "pending s = c # somes (fl_stack s)" by (simp add: pending_def c)
      from mono ps k(1) have kl: "k \<le> length ?L" and mr: "mono_inserts k (somes (fl_stack s))"
        by simp_all
      let ?d = "c\<lparr>lastLineIndex := y, insert_at := None\<rparr>"
      let ?L1 = "splice_in k ?d ?L"
      have r1: "flatten_token None t s =
          Inr (s\<lparr>fl_lists := ?L1, fl_current := fst (pop (fl_stack s)),
                 fl_stack := snd (pop (fl_stack s))\<rparr>)"
        by (simp add: flatten_close_eq [OF cl c w xy] k(1))
      have w': "fl_lastWithLines s' = Some w" using lw w by simp
      have r2: "flatten_token (Some b) t s' =
          Inr (s'\<lparr>fl_lists := (if ordered c = b
                     then splice_in (length (filter ?P (take k ?L))) ?d (fl_lists s')
                     else fl_lists s'),
                 fl_current := fst (pop (fl_stack s')),
                 fl_stack := snd (pop (fl_stack s'))\<rparr>)"
        by (auto simp add: flatten_close_eq [OF cl c'(1) w' xy] k(2))
      have f1: "filter ?P ?L1 =
          (if ordered c = b then splice_in (length (filter ?P (take k ?L))) ?d (fl_lists s')
           else fl_lists s')"
        by (simp add: filter_splice_in L')
      have st1: "list_all2 (rel_option (sim_desc b ?L1)) (fl_stack s) (fl_stack s')"
        by (rule sim_stack_splice [OF st mr kl])
      have p1: "rel_option (sim_desc b ?L1) (fst (pop (fl_stack s))) (fst (pop (fl_stack s')))"
        using st1 by (cases "fl_stack s"; cases "fl_stack s'") (simp_all add: pop_def)
      have p2: "list_all2 (rel_option (sim_desc b ?L1)) (snd (pop (fl_stack s)))
          (snd (pop (fl_stack s')))"
        using st1 by (cases "fl_stack s"; cases "fl_stack s'") (simp_all add: pop_def)
      show ?thesis
        unfolding r1 r2 using f1 p1 p2 lw by (simp add: sim_state_def)
    qed
  next
    case it
    show ?thesis
    proof (cases "fl_current s")
      case None
      then have "fl_current s' = None" using cur by (cases "fl_current s'") simp_all
      with None show ?thesis by (simp add: flatten_item_eq [OF it])
    next
      case (Some c)
      with cur obtain c' where c': "fl_current s' = Some c'" "sim_desc b ?L c c'"
        by (cases "fl_current s'") simp_all
      have "sim_desc b ?L (c\<lparr>items := items c @ [t]\<rparr>) (c'\<lparr>items := items c' @ [t]\<rparr>)"
        using c'(2) by (auto simp add: sim_desc_def)
      then show ?thesis
        using Some c'(1) st L' lw by (simp add: flatten_item_eq [OF it] sim_state_def)
    qed
  next
    case ot
    show ?thesis
      unfolding flatten_other [OF ot]
      using cur st L' lw by (simp add: sim_state_def)
  qed
qed

lemma forEachE_flatten_sim:
  "sim_state b s s' \<Longrightarrow> flat_inv s W \<Longrightarrow>
   rel_sum (=) (sim_state b) (forEachE ts (flatten_token None) s)
     (forEachE ts (flatten_token (Some b)) s')"
proof (induction ts arbitrary: s s' W)
  case Nil
  then show ?case by simp
next
  case (Cons t ts)
  from Cons.prems(2) have mono: "mono_inserts (length (fl_lists s)) (pending s)"
    by (simp add: flat_inv_def)
  have step: "rel_sum (=) (sim_state b) (flatten_token None t s) (flatten_token (Some b) t s')"
    by (rule flatten_token_sim [OF Cons.prems(1) mono])
  show ?case
  proof (cases "flatten_token None t s")
    case (Inl e)
    with step obtain e' where "flatten_token (Some b) t s' = Inl e'" "e' = e"
      by (cases "flatten_token (Some b) t s'") simp_all
    with Inl show ?thesis by simp
  next
    case (Inr s1)
    with step obtain s1' where s1': "flatten_token (Some b) t s' = Inr s1'" "sim_state b s1 s1'"
      by (cases "flatten_token (Some b) t s'") simp_all
    from flatten_token_inv [OF Inr Cons.prems(2)]
    have "flat_inv s1 (W @ filter is_list_open [t])" .
    from Cons.IH [OF s1'(2) this] show ?thesis by (simp add: Inr s1'(1))
  qed
qed

lemma flattenLists_filter:
  "flattenLists ts (Some b) = map_sum id (filter (\<lambda>d. ordered d = b)) (flattenLists ts None)"
proof -
  have i: "flat_inv flatten_init []"
    by (simp add: flat_inv_def flatten_init_def pending_def keys_def)
  have s: "sim_state b flatten_init flatten_init"
    by (simp add: sim_state_def flatten_init_def)
  from forEachE_flatten_sim [OF s i, of ts]
  show ?thesis
    by (cases "forEachE ts (flatten_token None) flatten_init";
        cases "forEachE ts (flatten_token (Some b)) flatten_init")
       (simp_all add: flattenLists_def sim_state_def)
qed

text \<open>
  C5. When flattening without a filter returns the descriptors \<open>ls\<close>, their opening
  tokens are in token order: a list opens before every list nested in it, so it
  comes before them, and sibling lists keep their order. Flattening with a filter
  returns exactly the descriptors of \<open>ls\<close> that pass it, in the order they have in
  \<open>ls\<close>, and so in token order as well.
\<close>

theorem flattenLists_order:
  assumes "flattenLists ts None = Inr ls"
  shows "subseq (map open_token ls) (filter is_list_open ts) \<and>
         flattenLists ts (Some b) = Inr (filter (\<lambda>d. ordered d = b) ls) \<and>
         subseq (map open_token (filter (\<lambda>d. ordered d = b) ls)) (filter is_list_open ts)"
proof -
  have a: "subseq (map open_token ls) (filter is_list_open ts)"
    by (rule flattenLists_subseq [OF assms])
  have b: "flattenLists ts (Some b) = Inr (filter (\<lambda>d. ordered d = b) ls)"
    by (simp add: flattenLists_filter assms)
  have c: "subseq (map open_token (filter (\<lambda>d. ordered d = b) ls)) (filter is_list_open ts)"
    by (rule flattenLists_subseq [OF b])
  from a b c show ?thesis by blast
qed

lemma flatten_nested_doc:
  "map (\<lambda>d. (ordered d, nesting d, lineNumber (open_token d), map lineNumber (items d),
              lastLineIndex d))
     (projr (flattenLists (tokens nested_doc) None)) =
   [(False, 0, 1, [1, 3], 3), (True, 1, 2, [2], 2), (True, 0, 5, [5], 5)] \<and>
   isl (flattenLists (tokens nested_doc) None) = False"
  by (simp add: nested_doc_def nested_lines_def flattenLists_def flatten_token_def
      flatten_init_def block_def closing_def is_list_open_def is_list_close_def
      splice_in_def pop_def Let_def)

theorem flattenLists_order_witness:
  "\<exists>ls. flattenLists (tokens nested_doc) None = Inr ls \<and>
        map (\<lambda>d. (nesting d, lineNumber (open_token d))) ls = [(0, 1), (1, 2), (0, 5)] \<and>
        subseq (map open_token ls) (filter is_list_open (tokens nested_doc)) \<and>
        flattenLists (tokens nested_doc) (Some True) = Inr (filter (\<lambda>d. ordered d = True) ls) \<and>
        map (\<lambda>d. lineNumber (open_token d)) (filter (\<lambda>d. ordered d = True) ls) = [2, 5]"
proof -
  from flatten_nested_doc obtain ls where ls: "flattenLists (tokens nested_doc) None = Inr ls"
    by (cases "flattenLists (tokens nested_doc) None") simp_all
  with flatten_nested_doc have m:
    "map (\<lambda>d. (ordered d, nesting d, lineNumber (open_token d), map lineNumber (items d),
              lastLineIndex d)) ls =
     [(False, 0, 1, [1, 3], 3), (True, 1, 2, [2], 2), (True, 0, 5, [5], 5)]"
    by simp
  then obtain d1 d2 d3 where d: "ls = [d1, d2, d3]" by (auto simp add: map_eq_Cons_conv)
  from m d have a: "map (\<lambda>d. (nesting d, lineNumber (open_token d))) ls = [(0, 1), (1, 2), (0, 5)]"
    and b: "map (\<lambda>d. lineNumber (open_token d)) (filter (\<lambda>d. ordered d = True) ls) = [2, 5]"
    by simp_all
  from flattenLists_order [OF ls, of True]
  have o: "subseq (map open_token ls) (filter is_list_open (tokens nested_doc))"
    "flattenLists (tokens nested_doc) (Some True) = Inr (filter (\<lambda>d. ordered d = True) ls)"
    by simp_all
  show ?thesis
    by (rule exI [of _ ls]) (use ls a b o in simp)
qed

section \<open>Degenerate inputs\<close>






text \<open>
  A list item that is a marker alone, which the tokenizer does emit: the
  expression of MD030 does not match, and reading \<^verbatim>\<open>match[1]\<close> raises.
\<close>

lemma MD030_marker_only_item: "MD030 marker_only_doc = Inl TypeError"
  by (simp add: marker_only_doc_def marker_only_lines_def flattenLists_def flatten_token_def
      flatten_init_def block_def closing_def is_list_open_def is_list_close_def
      splice_in_def pop_def Let_def MD030_def MD030_list_def marker_spaces_re_def re_arg_def
      is_space_def no_options_def num_or_def)


section \<open>The order of the reported line numbers\<close>

lemma sorted_push_again:
  assumes "sorted (es @ x # ys)"
  shows "sorted (es @ replicate k x @ x # ys)"
proof -
  from assms have e: "sorted es" and y: "sorted (x # ys)" and c: "\<forall>a\<in>set es. \<forall>b\<in>set (x # ys). a \<le> b"
    by (simp_all add: sorted_append)
  have "sorted (replicate k x @ x # ys)"
    using y by (auto simp add: sorted_append)
  then show ?thesis using e c by (auto simp add: sorted_append)
qed

lemma sorted_drop_mid:
  assumes "sorted (es @ x # ys)"
  shows "sorted (es @ ys)"
  using assms by (auto simp add: sorted_append)

lemma fold_pushes_sorted:
  assumes step: "\<And>x s. pr (f x s) = pr s \<or> (R x \<and> (\<exists>k. pr (f x s) = pr s @ replicate k (g x)))"
    and srt: "sorted (pr s0 @ map g (filter R xs))"
  shows "sorted (pr (fold f xs s0))"
  using srt
proof (induction xs arbitrary: s0)
  case Nil
  then show ?case by simp
next
  case (Cons x xs)
  have "sorted (pr (f x s0) @ map g (filter R xs))"
  proof (cases "R x")
    case True
    with Cons.prems have s: "sorted (pr s0 @ g x # map g (filter R xs))" by simp
    from step [of x s0] obtain k where "pr (f x s0) = pr s0 @ replicate k (g x)"
      by (metis append_Nil2 replicate_0)
    moreover have "sorted (pr s0 @ replicate k (g x) @ map g (filter R xs))"
      using sorted_push_again [OF s, of k] by (auto simp add: sorted_append)
    ultimately show ?thesis by simp
  next
    case False
    with step [of x s0] have "pr (f x s0) = pr s0" by blast
    with False Cons.prems show ?thesis by simp
  qed
  from Cons.IH [OF this] show ?case by simp
qed

lemma forEachE_pushes_sorted:
  assumes step: "\<And>x s s'. f x s = Inr s' \<Longrightarrow>
      pr s' = pr s \<or> (R x \<and> (\<exists>k. pr s' = pr s @ replicate k (g x)))"
    and run: "forEachE xs f s0 = Inr s1"
    and srt: "sorted (pr s0 @ map g (filter R xs))"
  shows "sorted (pr s1)"
  using run srt
proof (induction xs arbitrary: s0)
  case Nil
  then show ?case by simp
next
  case (Cons x xs)
  from Cons.prems(1) obtain s' where s': "f x s0 = Inr s'" "forEachE xs f s' = Inr s1"
    by (auto split: sum.splits)
  have "sorted (pr s' @ map g (filter R xs))"
  proof (cases "R x")
    case True
    with Cons.prems(2) have s: "sorted (pr s0 @ g x # map g (filter R xs))" by simp
    from step [OF s'(1)] obtain k where "pr s' = pr s0 @ replicate k (g x)"
      by (metis append_Nil2 replicate_0)
    moreover have "sorted (pr s0 @ replicate k (g x) @ map g (filter R xs))"
      using sorted_push_again [OF s, of k] by (auto simp add: sorted_append)
    ultimately show ?thesis by simp
  next
    case False
    with step [OF s'(1)] have "pr s' = pr s0" by blast
    with False Cons.prems(2) show ?thesis by simp
  qed
  from Cons.IH [OF s'(2) this] show ?case .
qed

lemma sorted_wrt_subseq:
  "subseq xs ys \<Longrightarrow> sorted_wrt P ys \<Longrightarrow> sorted_wrt P xs"
proof (induction rule: list_emb.induct)
  case (list_emb_Nil ys)
  then show ?case by simp
next
  case (list_emb_Cons xs ys y)
  then show ?case by simp
next
  case (list_emb_Cons2 x y xs ys)
  then have "set xs \<subseteq> set ys"
    using list_emb_set [of "(=)" xs ys] by auto
  with list_emb_Cons2 show ?case by auto
qed

lemma fold_push_sorted:
  assumes step: "\<And>x s. pr (f x s) = pr s \<or> (R x \<and> pr (f x s) = pr s @ [g x])"
    and srt: "sorted (pr s0 @ map g (filter R xs))"
  shows "sorted (pr (fold f xs s0))"
proof (rule fold_pushes_sorted [where pr = pr and f = f and R = R and g = g])
  fix x s
  from step [of x s] show "pr (f x s) = pr s \<or> (R x \<and> (\<exists>k. pr (f x s) = pr s @ replicate k (g x)))"
    by (metis replicate.simps(1) replicate.simps(2))
next
  show "sorted (pr s0 @ map g (filter R xs))" by (rule srt)
qed

lemma forEachE_push_sorted:
  assumes step: "\<And>x s s'. f x s = Inr s' \<Longrightarrow> pr s' = pr s \<or> (R x \<and> pr s' = pr s @ [g x])"
    and run: "forEachE xs f s0 = Inr s1"
    and srt: "sorted (pr s0 @ map g (filter R xs))"
  shows "sorted (pr s1)"
proof (rule forEachE_pushes_sorted [where pr = pr and f = f and R = R and g = g and xs = xs
      and ?s0.0 = s0])
  fix x s s' assume "f x s = Inr s'"
  from step [OF this]
  show "pr s' = pr s \<or> (R x \<and> (\<exists>k. pr s' = pr s @ replicate k (g x)))"
    by (metis replicate.simps(1) replicate.simps(2))
next
  show "forEachE xs f s0 = Inr s1" by (rule run)
next
  show "sorted (pr s0 @ map g (filter R xs))" by (rule srt)
qed

lemma ascending_filter:
  assumes "tokens_ascending p" and "\<And>t. Q t \<Longrightarrow> reporting t"
  shows "sorted (map lineNumber (filter Q (tokens p)))"
proof -
  have "filter Q (tokens p) = filter Q (filter reporting (tokens p))"
    using assms(2) by (auto simp add: filter_filter intro: filter_cong)
  moreover have "sorted (map lineNumber (filter reporting (tokens p)))"
    using assms(1) by (simp add: tokens_ascending_def)
  then have "sorted (map lineNumber (filter Q (filter reporting (tokens p))))"
    by (rule sorted_filter)
  ultimately show ?thesis by simp
qed

lemma ascending_nonneg:
  assumes "tokens_ascending p" and "\<And>t. Q t \<Longrightarrow> reporting t"
  shows "sorted (0 # map lineNumber (filter Q (tokens p)))"
proof -
  have "filter Q (tokens p) = filter Q (filter reporting (tokens p))"
    using assms(2) by (auto simp add: filter_filter intro: filter_cong)
  moreover have "sorted (0 # map lineNumber (filter Q (filter reporting (tokens p))))"
    using assms(1) sorted_filter [of lineNumber "filter reporting (tokens p)" Q]
    by (auto simp add: tokens_ascending_def)
  ultimately show ?thesis by simp
qed

lemma headings_sorted:
  "tokens_ascending p \<Longrightarrow> sorted (map lineNumber (filterTokens (tokens p) ''heading_open'' None))"
  unfolding filterTokens_def
  by (rule ascending_filter) (simp_all add: reporting_def)

lemma sorted_line_numbers: "sorted (map (\<lambda>i. int i + 1) (filter P [0..<n]))"
proof -
  have "sorted (map (\<lambda>i. int i + 1) [0..<n])"
    by (rule sorted_wrt_map_mono [where R = "(\<le>)" and xs = "[0..<n]"]) simp_all
  then show ?thesis by (rule sorted_filter)
qed

lemma MD001_sorted:
  assumes "tokens_ascending p" and "MD001 p = Inr es"
  shows "sorted es"
proof -
  let ?f = "\<lambda>t (errors, prevLevel).
          (if prevLevel \<noteq> 0 \<and> hLevel t > prevLevel + 1 then errors @ [lineNumber t]
           else errors,
           hLevel t)"
  let ?hs = "filterTokens (tokens p) ''heading_open'' None"
  have "sorted (fst (fold ?f ?hs ([], 0)))"
  proof (rule fold_push_sorted [where pr = fst and R = "\<lambda>_. True" and g = lineNumber and f = ?f])
    fix x s
    show "fst (?f x s) = fst s \<or> (True \<and> fst (?f x s) = fst s @ [lineNumber x])"
      by (cases s) simp
  next
    show "sorted (fst ([], 0::int) @ map lineNumber (filter (\<lambda>_. True) ?hs))"
      using headings_sorted [OF assms(1)] by simp
  qed
  moreover from assms(2) have "es = fst (fold ?f ?hs ([], 0))" by (simp add: MD001_def)
  ultimately show ?thesis by simp
qed

lemma MD002_every_one: "\<exists>x. MD002_every ts e = e \<or> MD002_every ts e = e @ [x]"
  by (induction ts) auto

lemma MD002_sorted: "MD002 p = Inr es \<Longrightarrow> sorted es"
  using MD002_every_one [of "tokens p" "[]"] by (auto simp add: MD002_def)

lemma MD003_sorted:
  assumes "tokens_ascending p" and "MD003 p = Inr es"
  shows "sorted es"
proof -
  let ?hs = "filterTokens (tokens p) ''heading_open'' None"
  let ?f = "\<lambda>style' t errors.
              case headingStyleFor t of
                Inl e \<Rightarrow> Inl e
              | Inr st \<Rightarrow> Inr (if st \<noteq> style' then errors @ [lineNumber t] else errors)"
  from assms(2) obtain style' where run: "forEachE ?hs (?f style') [] = Inr es"
    by (auto simp add: MD003_def Let_def split: sum.splits)
  show ?thesis
  proof (rule forEachE_push_sorted [where pr = "\<lambda>e. e" and R = "\<lambda>_. True" and g = lineNumber
        and f = "?f style'" and xs = ?hs and ?s0.0 = "[]"])
    fix x s s' assume "?f style' x s = Inr s'"
    then show "s' = s \<or> (True \<and> s' = s @ [lineNumber x])"
      by (auto split: sum.splits if_splits)
  next
    show "forEachE ?hs (?f style') [] = Inr es" by (rule run)
  next
    show "sorted ([] @ map lineNumber (filter (\<lambda>_. True) ?hs))"
      using headings_sorted [OF assms(1)] by simp
  qed
qed

lemma list_opens_sorted:
  assumes "tokens_ascending p" and "flattenLists (tokens p) f = Inr ls"
  shows "sorted (map (\<lambda>l. lineNumber (open_token l)) ls)"
proof -
  have "sorted (map lineNumber (filter is_list_open (tokens p)))"
    by (rule ascending_filter [OF assms(1)]) (auto simp add: is_list_open_def reporting_def)
  moreover have "subseq (map lineNumber (map open_token ls))
      (map lineNumber (filter is_list_open (tokens p)))"
    by (rule subseq_map) (rule flattenLists_subseq [OF assms(2)])
  ultimately have "sorted (map lineNumber (map open_token ls))"
    by (rule sorted_wrt_subseq [rotated])
  then show ?thesis by (simp add: comp_def)
qed

lemma MD006_sorted:
  assumes "tokens_ascending p" and "MD006 p = Inr es"
  shows "sorted es"
proof -
  from assms(2) obtain ls where ls: "flattenLists (tokens p) (Some False) = Inr ls"
    and run: "forEachE ls MD006_list [] = Inr es"
    by (auto simp add: MD006_def split: sum.splits)
  show ?thesis
  proof (rule forEachE_push_sorted [where pr = "\<lambda>e. e" and R = "\<lambda>_. True"
        and g = "\<lambda>l. lineNumber (open_token l)" and f = MD006_list and xs = ls
        and ?s0.0 = "[]"])
    fix x s s' assume "MD006_list x s = Inr s'"
    then show "s' = s \<or> (True \<and> s' = s @ [lineNumber (open_token x)])"
      by (auto simp add: MD006_list_def split: sum.splits if_splits)
  next
    show "forEachE ls MD006_list [] = Inr es" by (rule run)
  next
    show "sorted ([] @ map (\<lambda>l. lineNumber (open_token l)) (filter (\<lambda>_. True) ls))"
      using list_opens_sorted [OF assms(1) ls] by simp
  qed
qed

lemma MD007_sorted:
  assumes "tokens_ascending p" and "MD007 p = Inr es"
  shows "sorted es"
proof -
  let ?n = "num_or (o_indent (options p)) 2"
  from assms(2) obtain ls st where ls: "flattenLists (tokens p) (Some False) = Inr ls"
    and run: "forEachE ls (MD007_list ?n) ([], 0) = Inr st" and es: "es = fst st"
    by (auto simp add: MD007_def Let_def split: sum.splits)
  have "sorted (fst st)"
  proof (rule forEachE_push_sorted [where pr = fst and R = "\<lambda>_. True"
        and g = "\<lambda>l. lineNumber (open_token l)" and f = "MD007_list ?n" and xs = ls
        and ?s0.0 = "([], 0)"])
    fix x s s' assume "MD007_list ?n x s = Inr s'"
    then show "fst s' = fst s \<or> (True \<and> fst s' = fst s @ [lineNumber (open_token x)])"
      by (cases s) (auto simp add: MD007_list_def split: sum.splits if_splits)
  next
    show "forEachE ls (MD007_list ?n) ([], 0) = Inr st" by (rule run)
  next
    show "sorted (fst ([], 0::nat) @ map (\<lambda>l. lineNumber (open_token l)) (filter (\<lambda>_. True) ls))"
      using list_opens_sorted [OF assms(1) ls] by simp
  qed
  with es show ?thesis by simp
qed

lemma MD009_sorted: "MD009 p = Inr es \<Longrightarrow> sorted es"
  unfolding MD009_def forEach_push using sorted_line_numbers by auto

lemma MD010_sorted: "MD010 p = Inr es \<Longrightarrow> sorted es"
  unfolding MD010_def forEach_push using sorted_line_numbers by auto

lemma MD013_sorted: "MD013 p = Inr es \<Longrightarrow> sorted es"
  unfolding MD013_def Let_def forEach_push using sorted_line_numbers by auto

lemma MD012_sorted: "MD012 p = Inr es \<Longrightarrow> sorted es"
proof (cases "code_blocks_ranged p")
  case True
  assume "MD012 p = Inr es"
  then show ?thesis unfolding MD012_result [OF True] using sorted_line_numbers by auto
next
  case False
  assume "MD012 p = Inr es"
  then show ?thesis by (simp add: MD012_def forEachLine_unranged [OF False])
qed

lemma MD018_sorted: "MD018 p = Inr es \<Longrightarrow> sorted es"
proof (cases "code_blocks_ranged p")
  case True
  assume "MD018 p = Inr es"
  then show ?thesis unfolding MD018_result [OF True] using sorted_line_numbers by auto
next
  case False
  assume "MD018 p = Inr es"
  then show ?thesis by (simp add: MD018_def forEachLine_unranged [OF False])
qed

lemma MD020_sorted: "MD020 p = Inr es \<Longrightarrow> sorted es"
proof (cases "code_blocks_ranged p")
  case True
  assume "MD020 p = Inr es"
  then show ?thesis
    unfolding MD020_def
      forEachLine_push [OF True, where Q = "\<lambda>l j c onf. \<not> c \<and> closed_atx_re l \<and>
        (hash_nospace_re l \<or> nospace_hash_end_re l)"]
    using sorted_line_numbers by auto
next
  case False
  assume "MD020 p = Inr es"
  then show ?thesis by (simp add: MD020_def forEachLine_unranged [OF False])
qed

lemma MD031_sorted: "MD031 p = Inr es \<Longrightarrow> sorted es"
proof (cases "code_blocks_ranged p")
  case True
  assume "MD031 p = Inr es"
  then show ?thesis
    unfolding MD031_def
      forEachLine_push [OF True, where Q = "\<lambda>l j c onf. onf \<and>
          (c \<and> 1 \<le> j \<and> length (lines p ! (j - 1)) \<noteq> 0 \<or>
           \<not> c \<and> j + 1 < length (lines p) \<and> length (lines p ! (j + 1)) \<noteq> 0)"]
    using sorted_line_numbers by auto
next
  case False
  assume "MD031 p = Inr es"
  then show ?thesis by (simp add: MD031_def forEachLine_unranged [OF False])
qed

lemma MD011_sorted:
  assumes "tokens_ascending p" and "MD011 p = Inr es"
  shows "sorted es"
proof -
  let ?f = "\<lambda>t errors.
          fold (\<lambda>child errors.
                  if reversed_link_re (re_arg (content child)) then errors @ [lineNumber t]
                  else errors)
            (filterTokens (children t) ''text'' None) errors"
  let ?hs = "filterTokens (tokens p) ''inline'' None"
  have hs: "sorted (map lineNumber ?hs)"
    unfolding filterTokens_def
    by (rule ascending_filter [OF assms(1)]) (simp add: reporting_def)
  have "sorted (fold ?f ?hs [])"
  proof (rule fold_pushes_sorted [where pr = "\<lambda>e. e" and R = "\<lambda>_. True" and g = lineNumber
        and f = ?f])
    fix x s
    have "?f x s = s @ map (\<lambda>child. lineNumber x)
        (filter (\<lambda>child. reversed_link_re (re_arg (content child)))
           (filterTokens (children x) ''text'' None))"
      by (rule fold_push_filter)
    then have "\<exists>k. ?f x s = s @ replicate k (lineNumber x)"
      by (metis map_replicate_const)
    then show "?f x s = s \<or> (True \<and> (\<exists>k. ?f x s = s @ replicate k (lineNumber x)))"
      by blast
  next
    show "sorted ([] @ map lineNumber (filter (\<lambda>_. True) ?hs))" using hs by simp
  qed
  moreover from assms(2) have "es = fold ?f ?hs []" by (simp add: MD011_def)
  ultimately show ?thesis by simp
qed

lemma MD014_sorted:
  assumes "tokens_ascending p" and "MD014 p = Inr es"
  shows "sorted es"
proof -
  let ?f = "\<lambda>t errors.
          case content t of
            None \<Rightarrow> errors
          | Some c \<Rightarrow>
              if c \<noteq> [] \<and>
                 list_all dollar_re (filter (\<lambda>line. line \<noteq> []) (split_newLineRe c))
              then errors @ [lineNumber t] else errors"
  let ?hs = "filterTokens (tokens p) ''code_block'' (Some ''fence'')"
  have hs: "sorted (map lineNumber ?hs)"
    unfolding filterTokens_def
    by (rule ascending_filter [OF assms(1)]) (auto simp add: reporting_def)
  have "sorted (fold ?f ?hs [])"
  proof (rule fold_push_sorted [where pr = "\<lambda>e. e" and R = "\<lambda>_. True" and g = lineNumber
        and f = ?f])
    fix x s
    show "?f x s = s \<or> (True \<and> ?f x s = s @ [lineNumber x])"
      by (simp split: option.splits)
  next
    show "sorted ([] @ map lineNumber (filter (\<lambda>_. True) ?hs))" using hs by simp
  qed
  moreover from assms(2) have "es = fold ?f ?hs []" by (simp add: MD014_def)
  ultimately show ?thesis by simp
qed

lemma MD019_sorted:
  assumes "tokens_ascending p" and "MD019 p = Inr es"
  shows "sorted es"
proof -
  let ?hs = "filterTokens (tokens p) ''heading_open'' None"
  let ?f = "\<lambda>t errors.
          case headingStyleFor t of
            Inl e \<Rightarrow> Inl e
          | Inr st \<Rightarrow>
              Inr (if st = ''atx'' \<and> hash_two_spaces_re (re_arg (tline t))
                   then errors @ [lineNumber t] else errors)"
  from assms(2) have run: "forEachE ?hs ?f [] = Inr es" by (simp add: MD019_def)
  show ?thesis
  proof (rule forEachE_push_sorted [where pr = "\<lambda>e. e" and R = "\<lambda>_. True" and g = lineNumber
        and f = ?f and xs = ?hs and ?s0.0 = "[]"])
    fix x s s' assume "?f x s = Inr s'"
    then show "s' = s \<or> (True \<and> s' = s @ [lineNumber x])"
      by (auto split: sum.splits if_splits)
  next
    show "forEachE ?hs ?f [] = Inr es" by (rule run)
  next
    show "sorted ([] @ map lineNumber (filter (\<lambda>_. True) ?hs))"
      using headings_sorted [OF assms(1)] by simp
  qed
qed

lemma MD021_sorted:
  assumes "tokens_ascending p" and "MD021 p = Inr es"
  shows "sorted es"
proof -
  let ?hs = "filterTokens (tokens p) ''heading_open'' None"
  let ?f = "\<lambda>t errors.
          case headingStyleFor t of
            Inl e \<Rightarrow> Inl e
          | Inr st \<Rightarrow>
              Inr (if st = ''atx_closed'' \<and>
                      (hash_two_spaces_re (re_arg (tline t)) \<or>
                       two_spaces_hash_end_re (re_arg (tline t)))
                   then errors @ [lineNumber t] else errors)"
  from assms(2) have run: "forEachE ?hs ?f [] = Inr es" by (simp add: MD021_def)
  show ?thesis
  proof (rule forEachE_push_sorted [where pr = "\<lambda>e. e" and R = "\<lambda>_. True" and g = lineNumber
        and f = ?f and xs = ?hs and ?s0.0 = "[]"])
    fix x s s' assume "?f x s = Inr s'"
    then show "s' = s \<or> (True \<and> s' = s @ [lineNumber x])"
      by (auto split: sum.splits if_splits)
  next
    show "forEachE ?hs ?f [] = Inr es" by (rule run)
  next
    show "sorted ([] @ map lineNumber (filter (\<lambda>_. True) ?hs))"
      using headings_sorted [OF assms(1)] by simp
  qed
qed

lemma MD023_sorted:
  assumes "tokens_ascending p" and "MD023 p = Inr es"
  shows "sorted es"
proof -
  let ?hs = "filterTokens (tokens p) ''heading_open'' None"
  from assms(2) have "es = map lineNumber (filter (\<lambda>t. leading_space_re (re_arg (tline t))) ?hs)"
    by (simp add: MD023_def fold_push_filter)
  then show ?thesis using headings_sorted [OF assms(1)] by (simp add: sorted_filter)
qed

lemma MD025_sorted:
  assumes "tokens_ascending p" and "MD025 p = Inr es"
  shows "sorted es"
proof -
  let ?f = "\<lambda>t (errors, hasTopLevelHeading).
          if hLevel t = 1 then
            (if hasTopLevelHeading then (errors @ [lineNumber t], hasTopLevelHeading)
             else if lineNumber t = 1 then (errors, True)
             else (errors, hasTopLevelHeading))
          else (errors, hasTopLevelHeading)"
  let ?hs = "filterTokens (tokens p) ''heading_open'' None"
  have "sorted (fst (fold ?f ?hs ([], False)))"
  proof (rule fold_push_sorted [where pr = fst and R = "\<lambda>_. True" and g = lineNumber and f = ?f])
    fix x s
    show "fst (?f x s) = fst s \<or> (True \<and> fst (?f x s) = fst s @ [lineNumber x])"
      by (cases s) simp
  next
    show "sorted (fst ([], False) @ map lineNumber (filter (\<lambda>_. True) ?hs))"
      using headings_sorted [OF assms(1)] by simp
  qed
  moreover from assms(2) have "es = fst (fold ?f ?hs ([], False))" by (simp add: MD025_def)
  ultimately show ?thesis by simp
qed

lemma MD028_sorted:
  assumes "tokens_ascending p" and "MD028 p = Inr es"
  shows "sorted es"
proof -
  let ?f = "\<lambda>t (errors, prevType).
          (if ttype t = ''blockquote_open'' \<and> prevType = Some ''blockquote_close''
           then errors @ [lineNumber t - 1] else errors,
           Some (ttype t))"
  let ?R = "\<lambda>t. ttype t = ''blockquote_open''"
  have "sorted (map lineNumber (filter ?R (tokens p)))"
    by (rule ascending_filter [OF assms(1)]) (simp add: reporting_def)
  then have "sorted (map (\<lambda>x. x - 1) (map lineNumber (filter ?R (tokens p))))"
    by (rule sorted_wrt_map_mono) simp
  then have q: "sorted (map (\<lambda>t. lineNumber t - 1) (filter ?R (tokens p)))"
    by (simp add: comp_def)
  have "sorted (fst (fold ?f (tokens p) ([], None)))"
  proof (rule fold_push_sorted [where pr = fst and R = ?R and g = "\<lambda>t. lineNumber t - 1"
        and f = ?f])
    fix x s
    show "fst (?f x s) = fst s \<or> (?R x \<and> fst (?f x s) = fst s @ [lineNumber x - 1])"
      by (cases s) simp
  next
    show "sorted (fst ([], None) @ map (\<lambda>t. lineNumber t - 1) (filter ?R (tokens p)))"
      using q by simp
  qed
  moreover from assms(2) have "es = fst (fold ?f (tokens p) ([], None))" by (simp add: MD028_def)
  ultimately show ?thesis by simp
qed

lemma forEachHeading_loop_sorted:
  assumes step: "\<And>h c s. pr (cb h c s) = pr s \<or> pr (cb h c s) = pr s @ [lineNumber h]"
    and srt: "sorted (pr s @ (case h of None \<Rightarrow> [] | Some t0 \<Rightarrow> [lineNumber t0]) @
                map lineNumber (filter (\<lambda>t. ttype t = ''heading_open'') ts))"
  shows "sorted (pr (forEachHeading_loop cb ts h s))"
  using srt
proof (induction ts arbitrary: h s)
  case Nil
  then show ?case by (simp add: sorted_append)
next
  case (Cons t ts)
  let ?hs = "map lineNumber (filter (\<lambda>t. ttype t = ''heading_open'') ts)"
  consider (op) "ttype t = ''heading_open''"
    | (cl) "ttype t \<noteq> ''heading_open''" "ttype t = ''heading_close''"
    | (inl) "ttype t \<noteq> ''heading_open''" "ttype t \<noteq> ''heading_close''"
        "ttype t = ''inline''" "h \<noteq> None"
    | (ot) "ttype t \<noteq> ''heading_open''" "ttype t \<noteq> ''heading_close''"
        "\<not> (ttype t = ''inline'' \<and> h \<noteq> None)"
    by blast
  then show ?case
  proof cases
    case op
    from Cons.prems op have "sorted (pr s @ [lineNumber t] @ ?hs)"
      by (cases h) (auto simp add: sorted_append)
    from Cons.IH [of s "Some t"] this op show ?thesis by simp
  next
    case cl
    from Cons.prems cl have "sorted (pr s @ ?hs)"
      by (cases h) (auto simp add: sorted_append)
    from Cons.IH [of s None] this cl show ?thesis by simp
  next
    case inl
    then obtain t0 where h: "h = Some t0" by (cases h) auto
    from Cons.prems inl h have s: "sorted (pr s @ lineNumber t0 # ?hs)" by simp
    have "sorted (pr (cb t0 (content t) s) @ [lineNumber t0] @ ?hs)"
    proof (cases "pr (cb t0 (content t) s) = pr s")
      case True
      then show ?thesis using s by simp
    next
      case False
      with step [of t0 "content t" s] have "pr (cb t0 (content t) s) = pr s @ [lineNumber t0]"
        by blast
      then show ?thesis using sorted_push_again [OF s, of 1] by simp
    qed
    from Cons.IH [of "cb t0 (content t) s" "Some t0"] this inl h show ?thesis by simp
  next
    case ot
    from Cons.prems ot have "sorted (pr s @ (case h of None \<Rightarrow> [] | Some t0 \<Rightarrow> [lineNumber t0]) @ ?hs)"
      by simp
    from Cons.IH [of s h] this ot show ?thesis by auto
  qed
qed

lemma MD024_sorted:
  assumes "tokens_ascending p" and "MD024 p = Inr es"
  shows "sorted es"
proof -
  let ?cb = "\<lambda>heading content (errors, knownContent).
          if content \<notin> set knownContent then (errors, knownContent @ [content])
          else (errors @ [lineNumber heading], knownContent)"
  have "sorted (fst (forEachHeading_loop ?cb (tokens p) None ([], [])))"
  proof (rule forEachHeading_loop_sorted [where pr = fst and cb = ?cb])
    fix h c s
    show "fst (?cb h c s) = fst s \<or> fst (?cb h c s) = fst s @ [lineNumber h]"
      by (cases s) simp
  next
    show "sorted (fst ([], []) @ (case None of None \<Rightarrow> [] | Some t0 \<Rightarrow> [lineNumber t0]) @
        map lineNumber (filter (\<lambda>t. ttype t = ''heading_open'') (tokens p)))"
      using headings_sorted [OF assms(1)] by (simp add: filterTokens_def)
  qed
  moreover from assms(2) have "es = fst (forEachHeading_loop ?cb (tokens p) None ([], []))"
    by (simp add: MD024_def forEachHeading_def)
  ultimately show ?thesis by simp
qed

lemma MD026_sorted:
  assumes "tokens_ascending p" and "MD026 p = Inr es"
  shows "sorted es"
proof -
  let ?pn = "str_or (o_punctuation (options p)) ''.,;:!?''"
  let ?cb = "\<lambda>heading content errors.
              if punctuation_end_re ?pn (re_arg content)
              then errors @ [lineNumber heading] else errors"
  have "sorted (forEachHeading_loop ?cb (tokens p) None [])"
  proof (rule forEachHeading_loop_sorted [where pr = "\<lambda>e. e" and cb = ?cb])
    fix h c s
    show "?cb h c s = s \<or> ?cb h c s = s @ [lineNumber h]" by simp
  next
    show "sorted ([] @ (case None of None \<Rightarrow> [] | Some t0 \<Rightarrow> [lineNumber t0]) @
        map lineNumber (filter (\<lambda>t. ttype t = ''heading_open'') (tokens p)))"
      using headings_sorted [OF assms(1)] by (simp add: filterTokens_def)
  qed
  moreover from assms(2) have "es = forEachHeading_loop ?cb (tokens p) None []"
    by (simp add: MD026_def forEachHeading_def Let_def)
  ultimately show ?thesis by simp
qed

lemma MD032_line_pushes:
  "fst (MD032_line l i c onf (e, b, pv)) = e \<or>
   fst (MD032_line l i c onf (e, b, pv)) = e @ [int i + 1] \<or>
   fst (MD032_line l i c onf (e, b, pv)) = e @ [int i]"
  by (simp add: MD032_line_def Let_def)

lemma MD032_loop_sorted:
  "sorted e \<Longrightarrow> \<forall>x\<in>set e. x \<le> int i \<Longrightarrow>
   sorted (fst (forEachLine_loop cl MD032_line ls i f (e, b, pv)))"
proof (induction ls arbitrary: i f e b pv)
  case Nil
  then show ?case by simp
next
  case (Cons l ls)
  let ?f' = "if fence_re l then \<not> f else f"
  let ?st = "MD032_line l i (?f' \<or> int i \<in> set cl) (fence_re l) (e, b, pv)"
  obtain e' b' pv' where st: "?st = (e', b', pv')" by (cases ?st)
  from MD032_line_pushes [of l i "?f' \<or> int i \<in> set cl" "fence_re l" e b pv] st
  have "e' = e \<or> e' = e @ [int i + 1] \<or> e' = e @ [int i]" by simp
  with Cons.prems have "sorted e'" and "\<forall>x\<in>set e'. x \<le> int (Suc i)"
    by (fastforce simp add: sorted_append)+
  from Cons.IH [OF this, of ?f' b' pv'] st show ?case by (simp add: Let_def)
qed

lemma MD032_sorted:
  assumes "MD032 p = Inr es"
  shows "sorted es"
proof -
  from assms obtain cl where
    "es = fst (forEachLine_loop cl MD032_line (lines p) 0 False ([], False, []))"
    by (auto simp add: MD032_def forEachLine_def split: sum.splits prod.splits)
       (metis fst_conv)
  moreover have "sorted (fst (forEachLine_loop cl MD032_line (lines p) 0 False ([], False, [])))"
    by (rule MD032_loop_sorted) simp_all
  ultimately show ?thesis by simp
qed

lemma forEachE_no_match:
  "\<forall>x\<in>set xs. f x = (\<lambda>e. Inr e) \<Longrightarrow> forEachE xs f e = Inr e"
  by (induction xs) simp_all

lemma MD022_inline_no_push:
  assumes "\<not> list_ex setext_underline_re ls"
  shows "forEachE (enumerate n ls)
           (\<lambda>(offset, line) errors.
              if setext_underline_re line
              then (case tlines t of
                      None \<Rightarrow> Inl TypeError
                    | Some (a, b) \<Rightarrow> Inr (errors @ [a + int offset]))
              else Inr errors)
           errors = Inr errors"
proof (rule forEachE_no_match)
  show "\<forall>x\<in>set (enumerate n ls).
      (case x of (offset, line) \<Rightarrow> \<lambda>errors.
              if setext_underline_re line
              then (case tlines t of
                      None \<Rightarrow> Inl TypeError
                    | Some (a, b) \<Rightarrow> Inr (errors @ [a + int offset]))
              else Inr errors) = (\<lambda>e. Inr e)"
    using assms by (auto simp add: list_ex_iff in_set_enumerate_eq)
qed

lemma MD022_token_pushes:
  assumes "MD022_token t (e, ph, pm, nb) = Inr (e', ph', pm', nb')"
    and "ttype t = ''inline'' \<longrightarrow> no_underline t"
  shows "(ttype t = ''heading_open'' \<and> ph' = lineNumber t \<and>
          (\<exists>k. e' = e @ replicate k (lineNumber t))) \<or>
         (ttype t \<noteq> ''heading_open'' \<and> ph' = ph \<and> (\<exists>k. e' = e @ replicate k ph))"
proof -
  have r0: "\<And>x. e = e @ replicate 0 x" by simp
  have r1: "\<And>x. e @ [x] = e @ replicate 1 x" by simp
  have r2: "\<And>x. (e @ [x]) @ [x] = e @ replicate 2 x" by (simp add: numeral_2_eq_2)
  consider (op) "ttype t = ''heading_open''"
    | (cl) "ttype t \<noteq> ''heading_open''" "ttype t = ''heading_close''"
    | (inl) "ttype t \<noteq> ''heading_open''" "ttype t \<noteq> ''heading_close''" "ttype t = ''inline''"
    | (ot) "ttype t \<noteq> ''heading_open''" "ttype t \<noteq> ''heading_close''" "ttype t \<noteq> ''inline''"
    by blast
  then show ?thesis
  proof cases
    case op
    with assms(1) have "ph' = lineNumber t \<and>
        (e' = e \<or> e' = e @ [lineNumber t] \<or> e' = (e @ [lineNumber t]) @ [lineNumber t])"
      by (auto simp add: MD022_token_def split: option.splits if_splits)
    then show ?thesis using op r0 r1 r2 by metis
  next
    case cl
    with assms(1) have "ph' = ph \<and> (e' = e \<or> e' = e @ [ph])"
      by (auto simp add: MD022_token_def split: option.splits if_splits)
    then show ?thesis using cl r0 r1 by metis
  next
    case inl
    with assms(2) have nu: "no_underline t" by simp
    from assms(1) inl obtain c where c: "content t = Some c"
      by (cases "content t") (auto simp add: MD022_token_def)
    with nu have "\<not> list_ex setext_underline_re (split_newLineRe c)"
      by (simp add: no_underline_def)
    note np = MD022_inline_no_push [OF this, of 0 t e]
    from assms(1) inl c have "ph' = ph \<and> (e' = e \<or> e' = e @ [ph])"
      by (auto simp add: MD022_token_def np split: option.splits if_splits)
    then show ?thesis using inl r0 r1 by metis
  next
    case ot
    with assms(1) have "ph' = ph \<and> (e' = e \<or> e' = e @ [ph])"
      by (auto simp add: MD022_token_def split: option.splits if_splits)
    then show ?thesis using ot r0 r1 by metis
  qed
qed

lemma MD022_loop_sorted:
  assumes "forEachE ts MD022_token (e, ph, pm, nb) = Inr (e', ph', pm', nb')"
    and "\<forall>t\<in>set ts. ttype t = ''inline'' \<longrightarrow> no_underline t"
    and "sorted (e @ ph # map lineNumber (filter (\<lambda>t. ttype t = ''heading_open'') ts))"
  shows "sorted e'"
  using assms
proof (induction ts arbitrary: e ph pm nb)
  case Nil
  then show ?case by (simp add: sorted_append)
next
  case (Cons t ts)
  let ?hs = "map lineNumber (filter (\<lambda>t. ttype t = ''heading_open'') ts)"
  from Cons.prems(1) obtain e1 ph1 pm1 nb1 where
    step: "MD022_token t (e, ph, pm, nb) = Inr (e1, ph1, pm1, nb1)" and
    run: "forEachE ts MD022_token (e1, ph1, pm1, nb1) = Inr (e', ph', pm', nb')"
    by (auto split: sum.splits)
  from Cons.prems(2) have nu: "ttype t = ''inline'' \<longrightarrow> no_underline t"
    and nus: "\<forall>t\<in>set ts. ttype t = ''inline'' \<longrightarrow> no_underline t" by simp_all
  have "sorted (e1 @ ph1 # ?hs)"
  proof (cases "ttype t = ''heading_open''")
    case True
    with MD022_token_pushes [OF step nu] obtain k where
      k: "ph1 = lineNumber t" "e1 = e @ replicate k (lineNumber t)" by blast
    from Cons.prems(3) True have "sorted (e @ ph # lineNumber t # ?hs)" by simp
    then have "sorted (e @ lineNumber t # ?hs)" by (rule sorted_drop_mid)
    from sorted_push_again [OF this, of k] show ?thesis by (simp add: k)
  next
    case False
    with MD022_token_pushes [OF step nu] obtain k where
      k: "ph1 = ph" "e1 = e @ replicate k ph" by blast
    from Cons.prems(3) False have "sorted (e @ ph # ?hs)" by simp
    from sorted_push_again [OF this, of k] show ?thesis by (simp add: k)
  qed
  from Cons.IH [OF run nus this] show ?case .
qed

lemma MD022_sorted:
  assumes "tokens_ascending p" and "no_underline_content p" and "MD022 p = Inr es"
  shows "sorted es"
proof -
  from assms(3) obtain ph pm nb where
    run: "forEachE (tokens p) MD022_token ([], 0, - 1, False) = Inr (es, ph, pm, nb)"
    by (auto simp add: MD022_def split: sum.splits)
  have nu: "\<forall>t\<in>set (tokens p). ttype t = ''inline'' \<longrightarrow> no_underline t"
    using assms(2) by (auto simp add: no_underline_content_def filterTokens_def list_all_iff)
  have "sorted (0 # map lineNumber (filter (\<lambda>t. ttype t = ''heading_open'') (tokens p)))"
    by (rule ascending_nonneg [OF assms(1)]) (simp add: reporting_def)
  then have "sorted ([] @ 0 # map lineNumber (filter (\<lambda>t. ttype t = ''heading_open'') (tokens p)))"
    by simp
  from MD022_loop_sorted [OF run nu this] show ?thesis .
qed

lemma MD027_token_cases:
  assumes "MD027_token t (e, b) = Inr (e', b')"
  shows "e' = e \<or>
    (ttype t = ''inline'' \<and>
     (\<exists>P. e' = e @ map (\<lambda>i. lineNumber t + int i) (filter P [0..<content_lines t])))"
proof (cases "ttype t = ''inline'' \<and> ttype t \<noteq> ''blockquote_open'' \<and>
    ttype t \<noteq> ''blockquote_close'' \<and> b")
  case True
  with assms obtain c where c: "content t = Some c"
    by (cases "content t") (auto simp add: MD027_token_def)
  let ?Q = "\<lambda>line offset. leading_space_re line \<or>
         (offset = 0 \<and> quote_two_spaces_re (re_arg (tline t)))"
  from assms True c have "e' = forEach (split_newLineRe c)
      (\<lambda>line offset errors. if ?Q line offset then errors @ [lineNumber t + int offset] else errors) e"
    by (auto simp add: MD027_token_def)
  also have "\<dots> = e @ map (\<lambda>i. lineNumber t + int i)
      (filter (\<lambda>i. ?Q (split_newLineRe c ! i) i) [0..<length (split_newLineRe c)])"
    by (rule forEach_push)
  finally show ?thesis using True c by (auto simp add: content_lines_def)
next
  case False
  with assms have "e' = e"
    by (auto simp add: MD027_token_def split: if_splits option.splits)
  then show ?thesis by simp
qed

lemma MD027_loop_sorted:
  assumes "forEachE ts MD027_token (e, b) = Inr (e', b')"
    and "sorted e"
    and "\<forall>x\<in>set e. \<forall>u\<in>set (filter (\<lambda>t. ttype t = ''inline'') ts). x \<le> lineNumber u"
    and "sorted_wrt (\<lambda>t u. lineNumber t + int (content_lines t) - 1 \<le> lineNumber u)
           (filter (\<lambda>t. ttype t = ''inline'') ts)"
  shows "sorted e'"
  using assms
proof (induction ts arbitrary: e b)
  case Nil
  then show ?case by simp
next
  case (Cons t ts)
  let ?inl = "filter (\<lambda>t. ttype t = ''inline'') ts"
  from Cons.prems(1) obtain e1 b1 where
    step: "MD027_token t (e, b) = Inr (e1, b1)" and
    run: "forEachE ts MD027_token (e1, b1) = Inr (e', b')"
    by (auto split: sum.splits)
  from Cons.prems(4) have ap: "sorted_wrt (\<lambda>t u. lineNumber t + int (content_lines t) - 1 \<le> lineNumber u) ?inl"
    by (cases "ttype t = ''inline''") simp_all
  from Cons.prems(3) have le: "\<forall>x\<in>set e. \<forall>u\<in>set ?inl. x \<le> lineNumber u"
    by (cases "ttype t = ''inline''") simp_all
  have "sorted e1 \<and> (\<forall>x\<in>set e1. \<forall>u\<in>set ?inl. x \<le> lineNumber u)"
  proof (cases "e1 = e")
    case True
    then show ?thesis using Cons.prems(2) le by simp
  next
    case False
    with MD027_token_cases [OF step] obtain P where
      t: "ttype t = ''inline''" and
      e1: "e1 = e @ map (\<lambda>i. lineNumber t + int i) (filter P [0..<content_lines t])"
      by blast
    let ?blk = "map (\<lambda>i. lineNumber t + int i) (filter P [0..<content_lines t])"
    have sb: "sorted ?blk"
      by (rule sorted_filter) (rule sorted_wrt_map_mono [where R = "(\<le>)"], simp_all)
    have lo: "\<forall>y\<in>set ?blk. lineNumber t \<le> y" by auto
    have hi: "\<forall>y\<in>set ?blk. y \<le> lineNumber t + int (content_lines t) - 1" by auto
    from Cons.prems(3) t have "\<forall>x\<in>set e. x \<le> lineNumber t" by simp
    with lo have "\<forall>x\<in>set e. \<forall>y\<in>set ?blk. x \<le> y" by fastforce
    with Cons.prems(2) sb have s1: "sorted e1" by (simp add: e1 sorted_append)
    from Cons.prems(4) t have "\<forall>u\<in>set ?inl. lineNumber t + int (content_lines t) - 1 \<le> lineNumber u"
      by simp
    with hi have "\<forall>y\<in>set ?blk. \<forall>u\<in>set ?inl. y \<le> lineNumber u" by fastforce
    with le have "\<forall>x\<in>set e1. \<forall>u\<in>set ?inl. x \<le> lineNumber u" by (auto simp add: e1)
    with s1 show ?thesis by simp
  qed
  then have a: "sorted e1" and b: "\<forall>x\<in>set e1. \<forall>u\<in>set ?inl. x \<le> lineNumber u" by simp_all
  from Cons.IH [OF run a b ap] show ?case .
qed

lemma MD027_sorted:
  assumes "inline_spans_apart p" and "MD027 p = Inr es"
  shows "sorted es"
proof -
  from assms(2) obtain b where run: "forEachE (tokens p) MD027_token ([], False) = Inr (es, b)"
    by (auto simp add: MD027_def split: sum.splits)
  have ap: "sorted_wrt (\<lambda>t u. lineNumber t + int (content_lines t) - 1 \<le> lineNumber u)
           (filter (\<lambda>t. ttype t = ''inline'') (tokens p))"
    using assms(1) by (simp add: inline_spans_apart_def filterTokens_def)
  show ?thesis by (rule MD027_loop_sorted [OF run _ _ ap]) simp_all
qed

text \<open>
  C4, as the code has it. When the line numbers of the reporting tokens are not
  negative and do not decrease in token order, every rule of the catalog other than
  the per-item list rules MD004, MD005, MD029 and MD030 returns its line numbers in
  ascending order; for MD022 provided no line of an inline content is a run of
  dashes or equals signs, and for MD027 provided the content lines of an inline
  token end before the next inline token starts.
\<close>

theorem catalog_ascending:
  assumes "tokens_ascending p"
  shows "\<forall>(name, rule)\<in>set rules.
           name \<notin> set [''MD004'', ''MD005'', ''MD029'', ''MD030''] \<longrightarrow>
           (name = ''MD022'' \<longrightarrow> no_underline_content p) \<longrightarrow>
           (name = ''MD027'' \<longrightarrow> inline_spans_apart p) \<longrightarrow>
           (\<forall>es. rule p = Inr es \<longrightarrow> sorted es)"
  using assms
  by (simp add: rules_def MD001_sorted MD002_sorted MD003_sorted MD006_sorted MD007_sorted
      MD009_sorted MD010_sorted MD011_sorted MD012_sorted MD013_sorted MD014_sorted
      MD018_sorted MD019_sorted MD020_sorted MD021_sorted MD022_sorted MD023_sorted
      MD024_sorted MD025_sorted MD026_sorted MD027_sorted MD028_sorted MD031_sorted
      MD032_sorted)

text \<open>
  The per-item list rules report list by list, an outer list before the lists
  nested in it, so a later item of the outer list comes before an earlier item of
  a nested list. MD022 reports a line of an inline content by its 0-based index,
  after the 1-based number of the heading it belongs to.
\<close>

theorem catalog_ascending_counterexample:
  "tokens_ascending (nested3 ''bullet'' [''- a'', ''  -  b'', ''-  c''] no_options) \<and>
   MD030 (nested3 ''bullet'' [''- a'', ''  -  b'', ''-  c''] no_options) = Inr [3, 2] \<and>
   MD004 (nested3 ''bullet'' [''- a'', ''  - b'', ''- c'']
            (no_options\<lparr>o_style := Some ''asterisk''\<rparr>)) = Inr [1, 3, 2] \<and>
   MD029 (nested3 ''ordered'' [''1. a'', ''   2. b'', ''2. c''] no_options) = Inr [3, 2] \<and>
   MD005 (nested4 ''bullet'' [''- a'', ''  - b'', ''   - c'', '' - d''] no_options) = Inr [4, 3] \<and>
   tokens_ascending underline_heading_doc \<and>
   MD022 underline_heading_doc = Inr [2, 1]"
  by code_simp

text \<open>
  Two adjacent headings without blank lines around them: MD022 reports 2, 3, 3, 3.
\<close>

theorem catalog_ascending_witness:
  "tokens_ascending adjacent_headings_doc \<and> no_underline_content adjacent_headings_doc \<and>
   MD022 adjacent_headings_doc = Inr [2, 3, 3, 3] \<and> sorted [2, 3, 3, 3 :: int]"
proof -
  have a: "tokens_ascending adjacent_headings_doc" by code_simp
  have b: "no_underline_content adjacent_headings_doc" by code_simp
  have c: "MD022 adjacent_headings_doc = Inr [2, 3, 3, 3]" by code_simp
  have m: "(''MD022'', MD022) \<in> set rules" by (simp add: rules_def)
  from catalog_ascending [OF a] m have
    "(''MD022'' = ''MD022'' \<longrightarrow> no_underline_content adjacent_headings_doc) \<longrightarrow>
     (\<forall>es. MD022 adjacent_headings_doc = Inr es \<longrightarrow> sorted es)"
    by fastforce
  with b c have "sorted [2, 3, 3, 3 :: int]" by blast
  with a b c show ?thesis by blast
qed

end
